theory Spec2Isabelle
  imports Main "HOL-Library.Sublist"
begin

section \<open>Python strings and numbers\<close>

text \<open>
  The program is \<^verbatim>\<open>dash-media-backup-tool.py\<close>. Its strings are modelled as
  \<^typ>\<open>string\<close> (lists of 8-bit characters), so the model speaks about ASCII text:
  Unicode white space, Unicode digits and case mappings outside ASCII are not covered.
  This section models the few built-in string operations the program calls.
\<close>

definition py_isspace :: "char \<Rightarrow> bool" where
  \<comment> \<open>\<^verbatim>\<open>str.isspace\<close> on ASCII: TAB, LF, VT, FF, CR, FS, GS, RS, US and space.\<close>
  "py_isspace c = (c \<in> set [CHR 0x09, CHR 0x0A, CHR 0x0B, CHR 0x0C, CHR 0x0D,
                              CHR 0x1C, CHR 0x1D, CHR 0x1E, CHR 0x1F, CHR 0x20])"

definition strip :: "string \<Rightarrow> string" where
  \<comment> \<open>\<^verbatim>\<open>s.strip()\<close>\<close>
  "strip s = rev (dropWhile py_isspace (rev (dropWhile py_isspace s)))"

definition lstrip_chars :: "string \<Rightarrow> string \<Rightarrow> string" where
  \<comment> \<open>\<^verbatim>\<open>s.lstrip(chars)\<close>\<close>
  "lstrip_chars chars s = dropWhile (\<lambda>c. c \<in> set chars) s"

fun contains :: "string \<Rightarrow> string \<Rightarrow> bool" where
  \<comment> \<open>\<^verbatim>\<open>sub in s\<close>\<close>
  "contains sub [] = (sub = [])"
| "contains sub (c # cs) = (prefix sub (c # cs) \<or> contains sub cs)"

function replace :: "string \<Rightarrow> string \<Rightarrow> string \<Rightarrow> string" where
  \<comment> \<open>\<^verbatim>\<open>s.replace(old, new)\<close>, written \<open>replace old new s\<close>: the occurrences of
      \<open>old\<close> are found from the left and do not overlap.\<close>
  "replace old new [] = (if old = [] then new else [])"
| "replace old new (c # cs) =
     (if old = [] then new @ c # replace old new cs
      else if prefix old (c # cs) then new @ replace old new (drop (length old) (c # cs))
      else c # replace old new cs)"
  by pat_completeness auto
termination
  by (relation "measure (\<lambda>(old, new, s). length s)") (auto simp: neq_Nil_conv)

fun split_on :: "char \<Rightarrow> string \<Rightarrow> string list" where
  \<comment> \<open>\<^verbatim>\<open>s.split(sep)\<close> for a separator of one character\<close>
  "split_on sep [] = [[]]"
| "split_on sep (c # cs) =
     (if c = sep then [] # split_on sep cs
      else (case split_on sep cs of [] \<Rightarrow> [[c]] | w # ws \<Rightarrow> (c # w) # ws))"

fun join_with :: "string \<Rightarrow> string list \<Rightarrow> string" where
  \<comment> \<open>\<^verbatim>\<open>sep.join(parts)\<close>\<close>
  "join_with sep [] = []"
| "join_with sep [p] = p"
| "join_with sep (p # q # ps) = p @ sep @ join_with sep (q # ps)"

definition ascii_upper :: string where
  "ascii_upper = ''ABCDEFGHIJKLMNOPQRSTUVWXYZ''"

definition ascii_lower :: string where
  "ascii_lower = ''abcdefghijklmnopqrstuvwxyz''"

definition digit_chars :: string where
  "digit_chars = ''0123456789''"

definition lower_char :: "char \<Rightarrow> char" where
  "lower_char c = (case map_of (zip ascii_upper ascii_lower) c of Some d \<Rightarrow> d | None \<Rightarrow> c)"

definition lower :: "string \<Rightarrow> string" where
  \<comment> \<open>\<^verbatim>\<open>s.lower()\<close>\<close>
  "lower s = map lower_char s"

definition is_digit :: "char \<Rightarrow> bool" where
  "is_digit c = (c \<in> set digit_chars)"

definition digit_value :: "char \<Rightarrow> nat" where
  "digit_value c = (case map_of (zip digit_chars [0 ..< 10]) c of Some d \<Rightarrow> d | None \<Rightarrow> 0)"

fun str_nat :: "nat \<Rightarrow> string" where
  \<comment> \<open>decimal digits of a natural number\<close>
  "str_nat n = (if n < 10 then [digit_chars ! n] else str_nat (n div 10) @ [digit_chars ! (n mod 10)])"

definition str_int :: "int \<Rightarrow> string" where
  \<comment> \<open>\<^verbatim>\<open>str(n)\<close> for an \<^verbatim>\<open>int\<close>\<close>
  "str_int n = (if n < 0 then CHR ''-'' # str_nat (nat (- n)) else str_nat (nat n))"

definition format_0d :: "nat \<Rightarrow> int \<Rightarrow> string" where
  \<comment> \<open>\<^verbatim>\<open>f"{n:0{w}d}"\<close>: zero padding to width \<open>w\<close>, the sign first\<close>
  "format_0d w n =
     (let ds = str_nat (nat \<bar>n\<bar>); sgn = (if n < 0 then ''-'' else [])
      in sgn @ replicate (w - length sgn - length ds) CHR ''0'' @ ds)"

fun digits_val :: "nat \<Rightarrow> string \<Rightarrow> nat option" where
  \<comment> \<open>the rest of a decimal literal after a digit; single underscores may separate digits\<close>
  "digits_val acc [] = Some acc"
| "digits_val acc (c # cs) =
     (if is_digit c then digits_val (10 * acc + digit_value c) cs
      else if c = CHR ''_'' then
        (case cs of
           [] \<Rightarrow> None
         | d # ds \<Rightarrow> if is_digit d then digits_val (10 * acc + digit_value d) ds else None)
      else None)"

definition parse_digits :: "string \<Rightarrow> nat option" where
  "parse_digits s =
     (case s of
        [] \<Rightarrow> None
      | c # cs \<Rightarrow> if is_digit c then digits_val (digit_value c) cs else None)"

definition py_int :: "string \<Rightarrow> int option" where
  \<comment> \<open>\<^verbatim>\<open>int(s)\<close>; \<open>None\<close> stands for the \<^verbatim>\<open>ValueError\<close> it raises\<close>
  "py_int s =
     (case strip s of
        [] \<Rightarrow> None
      | c # cs \<Rightarrow>
          if c = CHR ''-'' then map_option (\<lambda>n. - int n) (parse_digits cs)
          else if c = CHR ''+'' then map_option int (parse_digits cs)
          else map_option int (parse_digits (c # cs)))"

section \<open>The standard library's URL and path functions\<close>

text \<open>
  \<^verbatim>\<open>urllib.parse\<close> and \<^verbatim>\<open>os.path\<close> are not part of the repository. They are
  modelled after CPython 3.11, statement by statement, for ASCII text on a POSIX system
  (\<^verbatim>\<open>os.path\<close> is \<^verbatim>\<open>posixpath\<close>). Two checks of \<^verbatim>\<open>urlsplit\<close> are outside the
  model: the \<^verbatim>\<open>ValueError\<close> for an authority with unbalanced or ill-formed square
  brackets, and the normalisation check of a non-ASCII authority.
\<close>

record parse_result =
  p_scheme :: string
  p_netloc :: string
  p_path :: string
  p_params :: string
  p_query :: string
  p_fragment :: string

definition uses_relative :: "string list" where
  "uses_relative = ['''', ''ftp'', ''http'', ''gopher'', ''nntp'', ''imap'',
                    ''wais'', ''file'', ''https'', ''shttp'', ''mms'',
                    ''prospero'', ''rtsp'', ''rtsps'', ''rtspu'', ''sftp'',
                    ''svn'', ''svn+ssh'', ''ws'', ''wss'']"

definition uses_netloc :: "string list" where
  "uses_netloc = ['''', ''ftp'', ''http'', ''gopher'', ''nntp'', ''telnet'',
                  ''imap'', ''wais'', ''file'', ''mms'', ''https'', ''shttp'',
                  ''snews'', ''prospero'', ''rtsp'', ''rtsps'', ''rtspu'', ''rsync'',
                  ''svn'', ''svn+ssh'', ''sftp'', ''nfs'', ''git'', ''git+ssh'',
                  ''ws'', ''wss'']"

definition uses_params :: "string list" where
  "uses_params = ['''', ''ftp'', ''hdl'', ''prospero'', ''http'', ''imap'',
                  ''https'', ''shttp'', ''rtsp'', ''rtsps'', ''rtspu'', ''sip'',
                  ''sips'', ''mms'', ''sftp'', ''tel'']"

definition scheme_chars :: string where
  "scheme_chars = ascii_lower @ ascii_upper @ digit_chars @ ''+-.''"

definition c0_control_or_space :: "char \<Rightarrow> bool" where
  "c0_control_or_space c = ((of_char c :: nat) \<le> 32)"

definition unsafe_url_byte :: "char \<Rightarrow> bool" where
  "unsafe_url_byte c = (c \<in> set [CHR 0x09, CHR 0x0D, CHR 0x0A])"

definition partition_at :: "(char \<Rightarrow> bool) \<Rightarrow> string \<Rightarrow> string \<times> string" where
  \<comment> \<open>the text before the first character satisfying \<open>P\<close>, and the text after it\<close>
  "partition_at P s = (takeWhile (\<lambda>c. \<not> P c) s, drop 1 (dropWhile (\<lambda>c. \<not> P c) s))"

definition urlsplit :: "string \<Rightarrow> string \<Rightarrow> parse_result" where
  \<comment> \<open>\<^verbatim>\<open>urlsplit(url, scheme)\<close>; the field \<open>p_params\<close> stays empty\<close>
  "urlsplit url0 scheme0 =
     (let url1 = filter (\<lambda>c. \<not> unsafe_url_byte c) (dropWhile c0_control_or_space url0);
          scheme1 = filter (\<lambda>c. \<not> unsafe_url_byte c)
                      (rev (dropWhile c0_control_or_space
                         (rev (dropWhile c0_control_or_space scheme0))));
          head = takeWhile (\<lambda>c. c \<noteq> CHR '':'') url1;
          has_scheme = (CHR '':'' \<in> set url1 \<and> head \<noteq> []
                        \<and> hd head \<in> set (ascii_lower @ ascii_upper)
                        \<and> list_all (\<lambda>c. c \<in> set scheme_chars) head);
          scheme2 = (if has_scheme then lower head else scheme1);
          url2 = (if has_scheme then drop (length head + 1) url1 else url1);
          has_netloc = (take 2 url2 = ''//'');
          netloc = (if has_netloc then takeWhile (\<lambda>c. c \<notin> set ''/?#'') (drop 2 url2) else []);
          url3 = (if has_netloc then dropWhile (\<lambda>c. c \<notin> set ''/?#'') (drop 2 url2) else url2);
          (url4, frag) = partition_at (\<lambda>c. c = CHR ''#'') url3;
          (url5, qry) = partition_at (\<lambda>c. c = CHR ''?'') url4
      in \<lparr>p_scheme = scheme2, p_netloc = netloc, p_path = url5, p_params = [],
          p_query = qry, p_fragment = frag\<rparr>)"

definition splitparams :: "string \<Rightarrow> string \<times> string" where
  \<comment> \<open>\<^verbatim>\<open>_splitparams\<close>: the parameters of the last path segment\<close>
  "splitparams url =
     (let segs = split_on CHR ''/'' url;
          lst = last segs;
          dir = take (length url - length lst) url
      in if CHR '';'' \<in> set lst
         then (dir @ takeWhile (\<lambda>c. c \<noteq> CHR '';'') lst,
               drop 1 (dropWhile (\<lambda>c. c \<noteq> CHR '';'') lst))
         else if CHR ''/'' \<in> set url then (url, [])
         else (butlast url, url))"

definition urlparse :: "string \<Rightarrow> string \<Rightarrow> parse_result" where
  \<comment> \<open>\<^verbatim>\<open>urlparse(url, scheme)\<close>\<close>
  "urlparse url scheme0 =
     (let r = urlsplit url scheme0
      in if p_scheme r \<in> set uses_params \<and> CHR '';'' \<in> set (p_path r)
         then (let (u, ps) = splitparams (p_path r) in r\<lparr>p_path := u, p_params := ps\<rparr>)
         else r)"

definition hostname :: "parse_result \<Rightarrow> string option" where
  \<comment> \<open>the \<^verbatim>\<open>hostname\<close> property: user information and port removed, lower case\<close>
  "hostname r =
     (let parts = split_on CHR ''@'' (p_netloc r);
          hostinfo = last parts;
          host = (if CHR ''['' \<in> set hostinfo
                  then takeWhile (\<lambda>c. c \<noteq> CHR '']'')
                         (drop 1 (dropWhile (\<lambda>c. c \<noteq> CHR ''['') hostinfo))
                  else takeWhile (\<lambda>c. c \<noteq> CHR '':'') hostinfo)
      in if host = [] then None
         else Some (lower (takeWhile (\<lambda>c. c \<noteq> CHR ''%'') host)
                    @ dropWhile (\<lambda>c. c \<noteq> CHR ''%'') host))"

definition urlunparse :: "parse_result \<Rightarrow> string" where
  \<comment> \<open>\<^verbatim>\<open>urlunparse\<close>, with \<^verbatim>\<open>urlunsplit\<close> inlined\<close>
  "urlunparse r =
     (let url1 = (if p_params r \<noteq> [] then p_path r @ '';'' @ p_params r else p_path r);
          url2 = (if p_netloc r \<noteq> [] \<or> (p_scheme r \<noteq> [] \<and> p_scheme r \<in> set uses_netloc)
                     \<or> take 2 url1 = ''//''
                  then ''//'' @ p_netloc r
                       @ (if url1 \<noteq> [] \<and> take 1 url1 \<noteq> ''/'' then ''/'' @ url1 else url1)
                  else url1);
          url3 = (if p_scheme r \<noteq> [] then p_scheme r @ '':'' @ url2 else url2);
          url4 = (if p_query r \<noteq> [] then url3 @ ''?'' @ p_query r else url3)
      in if p_fragment r \<noteq> [] then url4 @ ''#'' @ p_fragment r else url4)"

definition filter_middle :: "string list \<Rightarrow> string list" where
  \<comment> \<open>\<^verbatim>\<open>segments[1:-1] = filter(None, segments[1:-1])\<close>\<close>
  "filter_middle segs =
     (case segs of
        [] \<Rightarrow> []
      | [x] \<Rightarrow> [x]
      | x # y # ys \<Rightarrow> x # filter (\<lambda>s. s \<noteq> []) (butlast (y # ys)) @ [last (y # ys)])"

fun resolve_segments :: "string list \<Rightarrow> string list \<Rightarrow> string list" where
  \<comment> \<open>the loop over \<^verbatim>\<open>segments\<close>; the first argument is \<^verbatim>\<open>resolved_path\<close>\<close>
  "resolve_segments resolved [] = resolved"
| "resolve_segments resolved (seg # segs) =
     (if seg = ''..'' then resolve_segments (butlast resolved) segs
      else if seg = ''.'' then resolve_segments resolved segs
      else resolve_segments (resolved @ [seg]) segs)"

definition urljoin :: "string \<Rightarrow> string \<Rightarrow> string" where
  \<comment> \<open>\<^verbatim>\<open>urllib.parse.urljoin(base, url)\<close>\<close>
  "urljoin base url =
     (if base = [] then url
      else if url = [] then base
      else
        (let b = urlparse base [];
             u = urlparse url (p_scheme b)
         in if p_scheme u \<noteq> p_scheme b \<or> p_scheme u \<notin> set uses_relative then url
            else if p_scheme u \<in> set uses_netloc \<and> p_netloc u \<noteq> [] then urlunparse u
            else
              (let netloc = (if p_scheme u \<in> set uses_netloc then p_netloc b else p_netloc u)
               in if p_path u = [] \<and> p_params u = []
                  then urlunparse (u\<lparr>p_netloc := netloc, p_path := p_path b,
                                     p_params := p_params b,
                                     p_query := (if p_query u = [] then p_query b else p_query u)\<rparr>)
                  else
                    (let base_parts0 = split_on CHR ''/'' (p_path b);
                         base_parts = (if last base_parts0 \<noteq> [] then butlast base_parts0
                                       else base_parts0);
                         segments = (if take 1 (p_path u) = ''/'' then split_on CHR ''/'' (p_path u)
                                     else filter_middle (base_parts @ split_on CHR ''/'' (p_path u)));
                         resolved0 = resolve_segments [] segments;
                         resolved = (if last segments \<in> set [''.'', ''..''] then resolved0 @ [[]]
                                     else resolved0);
                         joined = join_with ''/'' resolved
                     in urlunparse (u\<lparr>p_netloc := netloc,
                                      p_path := (if joined = [] then ''/'' else joined)\<rparr>)))))"

definition always_safe :: string where
  "always_safe = ascii_upper @ ascii_lower @ digit_chars @ ''_.-~''"

definition hex_chars :: string where
  "hex_chars = ''0123456789ABCDEF''"

definition quote_char :: "char \<Rightarrow> string" where
  "quote_char c =
     (if c \<in> set always_safe then [c]
      else if c = CHR '' '' then ''+''
      else [CHR ''%'', hex_chars ! ((of_char c :: nat) div 16), hex_chars ! ((of_char c :: nat) mod 16)])"

definition quote_plus :: "string \<Rightarrow> string" where
  \<comment> \<open>\<^verbatim>\<open>urllib.parse.quote_plus(s)\<close>\<close>
  "quote_plus s = concat (map quote_char s)"

definition path_join :: "string \<Rightarrow> string \<Rightarrow> string" where
  \<comment> \<open>\<^verbatim>\<open>os.path.join(a, b)\<close>\<close>
  "path_join a b =
     (if take 1 b = ''/'' then b
      else if a = [] \<or> last a = CHR ''/'' then a @ b
      else a @ ''/'' @ b)"

definition splitext_ext :: "string \<Rightarrow> string" where
  \<comment> \<open>\<^verbatim>\<open>os.path.splitext(p)[1]\<close>: the text from the last dot of the last path segment,
      when a character other than a dot comes before that dot in the segment\<close>
  "splitext_ext p =
     (let name = last (split_on CHR ''/'' p);
          stem = rev (drop 1 (dropWhile (\<lambda>c. c \<noteq> CHR ''.'') (rev name)));
          ext = CHR ''.'' # rev (takeWhile (\<lambda>c. c \<noteq> CHR ''.'') (rev name))
      in if CHR ''.'' \<in> set name \<and> list_ex (\<lambda>c. c \<noteq> CHR ''.'') stem then ext else [])"

section \<open>The manifest tree\<close>

text \<open>
  The manifest is handled as the tree \<^verbatim>\<open>xml.etree.ElementTree\<close> builds: every element
  has a tag (with its namespace), attributes, an optional text and child elements. Parsing
  the bytes into the tree (\<^verbatim>\<open>ET.fromstring\<close>) is outside the model.
\<close>

datatype element =
  Element (tag: string) (attrib: "(string \<times> string) list") (elem_text: "string option")
          (children: "element list")

definition MPD_NS :: string where
  "MPD_NS = ''urn:mpeg:dash:schema:mpd:2011''"

definition qname :: "string \<Rightarrow> string" where
  \<comment> \<open>the tag that the path \<^verbatim>\<open>mpd:name\<close> selects\<close>
  "qname n = ''{'' @ MPD_NS @ ''}'' @ n"

definition findall :: "element \<Rightarrow> string \<Rightarrow> element list" where
  \<comment> \<open>\<^verbatim>\<open>e.findall('mpd:n', MPD_NS)\<close>: the children with that tag, in document order\<close>
  "findall e n = filter (\<lambda>c. tag c = qname n) (children e)"

definition find_child :: "element \<Rightarrow> string \<Rightarrow> element option" where
  \<comment> \<open>\<^verbatim>\<open>e.find('mpd:n', MPD_NS)\<close>: the first such child, or \<^verbatim>\<open>None\<close>\<close>
  "find_child e n = List.find (\<lambda>c. tag c = qname n) (children e)"

definition get :: "element \<Rightarrow> string \<Rightarrow> string option" where
  \<comment> \<open>\<^verbatim>\<open>e.get(key)\<close>\<close>
  "get e k = map_of (attrib e) k"

definition elem_or :: "element option \<Rightarrow> element option \<Rightarrow> element option" where
  \<comment> \<open>\<^verbatim>\<open>a or b\<close> on the results of \<^verbatim>\<open>find\<close>: the truth value of an element is
      whether it has children, so an element without children counts as false\<close>
  "elem_or a b = (case a of None \<Rightarrow> b | Some e \<Rightarrow> if children e \<noteq> [] then a else b)"

definition str_or :: "string option \<Rightarrow> string \<Rightarrow> string" where
  \<comment> \<open>\<^verbatim>\<open>a or d\<close> on an optional string: \<^verbatim>\<open>None\<close> and the empty string count as false\<close>
  "str_or a d = (case a of None \<Rightarrow> d | Some s \<Rightarrow> if s = [] then d else s)"

definition opt_list :: "'a list option \<Rightarrow> 'a list" where
  \<comment> \<open>an optional list read for its truth value and its members\<close>
  "opt_list a = (case a of None \<Rightarrow> [] | Some xs \<Rightarrow> xs)"

section \<open>The program\<close>

datatype error = RuntimeError string | ValueError

record download_item =
  url :: string
  relpath :: string

text \<open>
  The registry \<^verbatim>\<open>items\<close> is a Python dictionary from URL to item. A dictionary keeps its
  keys in the order of their first insertion, and an assignment to a key that is present
  replaces the value in place; an association list with \<open>dict_set\<close> does the same.
\<close>

type_synonym items = "(string \<times> download_item) list"

fun dict_set :: "('k \<times> 'v) list \<Rightarrow> 'k \<Rightarrow> 'v \<Rightarrow> ('k \<times> 'v) list" where
  \<comment> \<open>\<^verbatim>\<open>d[k] = v\<close>\<close>
  "dict_set [] k v = [(k, v)]"
| "dict_set ((k', v') # d) k v = (if k' = k then (k, v) # d else (k', v') # dict_set d k v)"

record args =
  filter_repr_id :: "string list option"
  filter_mime :: "string list option"

definition join_url :: "string \<Rightarrow> string \<Rightarrow> string" where
  "join_url base part = urljoin base part"

definition clean_baseurl_text :: "string option \<Rightarrow> string option" where
  \<comment> \<open>\<^verbatim>\<open>_clean_baseurl_text\<close>\<close>
  "clean_baseurl_text txt =
     (case txt of
        None \<Rightarrow> None
      | Some s \<Rightarrow> (let t = strip s in if t = [] \<or> t = ''/'' then None else Some t))"

fun collect_baseurls :: "element list \<Rightarrow> string list" where
  \<comment> \<open>the loop of \<^verbatim>\<open>get_all_baseurls\<close> over the \<^verbatim>\<open>BaseURL\<close> children\<close>
  "collect_baseurls [] = []"
| "collect_baseurls (b # bs) =
     (case clean_baseurl_text (elem_text b) of
        None \<Rightarrow> collect_baseurls bs
      | Some t \<Rightarrow> t # collect_baseurls bs)"

definition get_all_baseurls :: "element \<Rightarrow> string list" where
  "get_all_baseurls elem =
     (let urls = collect_baseurls (findall elem ''BaseURL'') in if urls = [] then [[]] else urls)"

definition ensure_relpath_from_url :: "string \<Rightarrow> string" where
  "ensure_relpath_from_url u =
     (let p = urlparse u [];
          rel = lstrip_chars ''/'' (p_path p)
      in if p_query p \<noteq> [] then path_join rel (quote_plus (p_query p)) else rel)"

definition add_item :: "items \<Rightarrow> string \<Rightarrow> items" where
  "add_item items u = dict_set items u \<lparr>url = u, relpath = ensure_relpath_from_url u\<rparr>"

definition match_number :: "string \<Rightarrow> (string option \<times> string) option" where
  \<comment> \<open>a match of the regular expression \<^verbatim>\<open>\$Number(%0(\d+)d)?\$\<close> at the start of the
      text: its group 2 and the text after the match\<close>
  "match_number s =
     (if prefix ''$Number'' s then
        (let r = drop 7 s
         in if prefix ''$'' r then Some (None, drop 1 r)
            else if prefix ''%0'' r then
              (let ds = takeWhile is_digit (drop 2 r);
                   r2 = dropWhile is_digit (drop 2 r)
               in if ds \<noteq> [] \<and> prefix ''d$'' r2 then Some (Some ds, drop 2 r2) else None)
            else None)
      else None)"

definition digits_nat :: "string \<Rightarrow> nat" where
  \<comment> \<open>the number a string of decimal digits denotes\<close>
  "digits_nat ds = foldl (\<lambda>a c. 10 * a + digit_value c) 0 ds"

function sub_number :: "int \<Rightarrow> string \<Rightarrow> string" where
  \<comment> \<open>\<^verbatim>\<open>re.sub(r"\$Number(%0(\d+)d)?\$", lambda m: ..., s)\<close> for the number \<open>n\<close>\<close>
  "sub_number n [] = []"
| "sub_number n (c # cs) =
     (case match_number (c # cs) of
        None \<Rightarrow> c # sub_number n cs
      | Some (g, rest) \<Rightarrow>
          (case g of None \<Rightarrow> str_int n | Some w \<Rightarrow> format_0d (digits_nat w) n)
          @ sub_number n rest)"
  by pat_completeness auto
termination
proof (relation "measure (\<lambda>(n, s). length s)")
  fix n :: int and c :: char and cs :: string and x2 :: "string option \<times> string" and g rest
  assume m: "match_number (c # cs) = Some x2" and x: "(g, rest) = x2"
  then have "prefix ''$Number'' (c # cs)"
    by (simp add: match_number_def split: if_splits)
  then obtain r where s: "c # cs = ''$Number'' @ r"
    by (auto simp: prefix_def)
  have "length (dropWhile is_digit (drop 2 r)) \<le> length r"
    by (rule le_trans [OF length_dropWhile_le]) simp
  with m x s have "length rest < length (c # cs)"
    by (auto simp: match_number_def Let_def split: if_splits)
  then show "((n, rest), (n, c # cs)) \<in> measure (\<lambda>(n, s). length s)"
    by simp
qed auto

definition expand_media_template ::
  "string \<Rightarrow> element \<Rightarrow> int option \<Rightarrow> int option \<Rightarrow> error + string" where
  "expand_media_template pat rep number time =
     (case (if contains ''$Number'' pat
            then (case number of
                    None \<Rightarrow> Inl (RuntimeError ''Template uses $Number$ but number=None'')
                  | Some n \<Rightarrow> Inr (sub_number n pat))
            else Inr pat) of
        Inl e \<Rightarrow> Inl e
      | Inr out1 \<Rightarrow>
          (case (if contains ''$Time$'' out1
                 then (case time of
                         None \<Rightarrow> Inl (RuntimeError ''Template uses $Time$ but time=None'')
                       | Some t \<Rightarrow> Inr (replace ''$Time$'' (str_int t) out1))
                 else Inr out1) of
             Inl e \<Rightarrow> Inl e
           | Inr out2 \<Rightarrow>
               (let out3 = (if contains ''$RepresentationID$'' out2
                            then replace ''$RepresentationID$'' (str_or (get rep ''id'') []) out2
                            else out2);
                    out4 = (if contains ''$Bandwidth$'' out3
                            then replace ''$Bandwidth$'' (str_or (get rep ''bandwidth'') []) out3
                            else out3)
                in Inr out4)))"

definition initialize_url_pattern :: "string \<Rightarrow> element \<Rightarrow> string" where
  "initialize_url_pattern pat rep =
     replace ''$Bandwidth$'' (str_or (get rep ''bandwidth'') [])
       (replace ''$RepresentationID$'' (str_or (get rep ''id'') []) pat)"

definition effective_base_urls_hierarchy ::
  "element \<Rightarrow> string \<Rightarrow> (element \<times> element \<times> string) list" where
  "effective_base_urls_hierarchy root base =
     (let mpd_bases = [join_url base b. b \<leftarrow> get_all_baseurls root]
      in concat (map (\<lambda>period.
           let p_bases = [join_url m b. m \<leftarrow> mpd_bases, b \<leftarrow> get_all_baseurls period]
           in concat (map (\<lambda>adp.
                let a_bases = [join_url p b. p \<leftarrow> p_bases, b \<leftarrow> get_all_baseurls adp]
                in concat (map (\<lambda>rep.
                     let r_bases = [join_url a b. a \<leftarrow> a_bases, b \<leftarrow> get_all_baseurls rep]
                     in map (\<lambda>eff. (rep, adp, eff)) r_bases)
                   (findall adp ''Representation'')))
              (findall period ''AdaptationSet'')))
         (findall root ''Period'')))"

definition matches_filters :: "element \<Rightarrow> element \<Rightarrow> args \<Rightarrow> bool" where
  "matches_filters rep adp a =
     (if opt_list (filter_repr_id a) \<noteq> []
         \<and> (case get rep ''id'' of None \<Rightarrow> True | Some i \<Rightarrow> i \<notin> set (opt_list (filter_repr_id a)))
      then False
      else if opt_list (filter_mime a) \<noteq> []
      then (let mime = str_or (get rep ''mimeType'') (str_or (get adp ''mimeType'') [])
            in list_ex (\<lambda>m. prefix (lower m) (lower mime)) (opt_list (filter_mime a)))
      else True)"

fun repeat_loop ::
  "string \<Rightarrow> element \<Rightarrow> string \<Rightarrow> string option \<Rightarrow> nat \<Rightarrow> int \<Rightarrow> items \<Rightarrow> error + (int \<times> items)" where
  \<comment> \<open>\<^verbatim>\<open>for _ in range(r + 1)\<close> in \<^verbatim>\<open>parse_segment_template\<close>: the number of rounds left,
      the cursor \<^verbatim>\<open>current_time\<close> and the registry\<close>
  "repeat_loop media rep base d 0 cur items = Inr (cur, items)"
| "repeat_loop media rep base d (Suc k) cur items =
     (case expand_media_template media rep None (Some cur) of
        Inl e \<Rightarrow> Inl e
      | Inr seg \<Rightarrow>
          (let items' = add_item items (join_url base seg)
           in case d of
                None \<Rightarrow> repeat_loop media rep base d k cur items'
              | Some dtext \<Rightarrow>
                  (case py_int dtext of
                     None \<Rightarrow> Inl ValueError
                   | Some dv \<Rightarrow> repeat_loop media rep base d k (cur + dv) items')))"

definition timeline_entry ::
  "string \<Rightarrow> element \<Rightarrow> string \<Rightarrow> element \<Rightarrow> int option \<Rightarrow> items \<Rightarrow> error + (int \<times> items)" where
  \<comment> \<open>the body of \<^verbatim>\<open>for s in timeline.findall('mpd:S', MPD_NS)\<close>\<close>
  "timeline_entry media rep base s current_time items =
     (case py_int (str_or (get s ''r'') ''0'') of
        None \<Rightarrow> Inl ValueError
      | Some r \<Rightarrow>
          (case (case get s ''t'' of
                   Some t \<Rightarrow> py_int t
                 | None \<Rightarrow> Some (case current_time of None \<Rightarrow> 0 | Some c \<Rightarrow> c)) of
             None \<Rightarrow> Inl ValueError
           | Some cur \<Rightarrow> repeat_loop media rep base (get s ''d'') (nat (r + 1)) cur items))"

fun timeline_loop ::
  "string \<Rightarrow> element \<Rightarrow> string \<Rightarrow> element list \<Rightarrow> int option \<Rightarrow> items \<Rightarrow> error + items" where
  "timeline_loop media rep base [] current_time items = Inr items"
| "timeline_loop media rep base (s # ss) current_time items =
     (case timeline_entry media rep base s current_time items of
        Inl e \<Rightarrow> Inl e
      | Inr (cur, items') \<Rightarrow> timeline_loop media rep base ss (Some cur) items')"

fun number_loop :: "string \<Rightarrow> element \<Rightarrow> string \<Rightarrow> int list \<Rightarrow> items \<Rightarrow> error + items" where
  \<comment> \<open>\<^verbatim>\<open>for i in range(start_number, start_number + count)\<close>\<close>
  "number_loop media rep base [] items = Inr items"
| "number_loop media rep base (i # is) items =
     (case expand_media_template media rep (Some i) None of
        Inl e \<Rightarrow> Inl e
      | Inr seg \<Rightarrow> number_loop media rep base is (add_item items (join_url base seg)))"

definition parse_segment_template ::
  "string option \<Rightarrow> element \<Rightarrow> element \<Rightarrow> string \<Rightarrow> items \<Rightarrow> error + items" where
  \<comment> \<open>the first argument is the value of \<^verbatim>\<open>os.getenv("DASH_SEGMENT_COUNT")\<close>\<close>
  "parse_segment_template count_env rep adp base items =
     (case elem_or (find_child rep ''SegmentTemplate'') (find_child adp ''SegmentTemplate'') of
        None \<Rightarrow> Inr items
      | Some st \<Rightarrow>
          (let init = str_or (get st ''initialization'') [];
               media = str_or (get st ''media'') [];
               items1 = (if init \<noteq> []
                         then add_item items (join_url base (initialize_url_pattern init rep))
                         else items)
           in if media = [] then Inr items1
              else
                (case py_int (str_or (get st ''startNumber'') ''1'') of
                   None \<Rightarrow> Inl ValueError
                 | Some start_number \<Rightarrow>
                     (case find_child st ''SegmentTimeline'' of
                        Some timeline \<Rightarrow>
                          timeline_loop media rep base (findall timeline ''S'') None items1
                      | None \<Rightarrow>
                          (if str_or count_env [] = []
                           then Inl (RuntimeError
                                  ''Need DASH_SEGMENT_COUNT for number-based SegmentTemplate'')
                           else
                             (case py_int (str_or count_env []) of
                                None \<Rightarrow> Inl ValueError
                              | Some count \<Rightarrow>
                                  number_loop media rep base
                                    [start_number .. start_number + count - 1] items1))))))"

fun segment_url_loop :: "string \<Rightarrow> element list \<Rightarrow> items \<Rightarrow> items" where
  \<comment> \<open>\<^verbatim>\<open>for su in sl.findall('mpd:SegmentURL', MPD_NS)\<close>\<close>
  "segment_url_loop base [] items = items"
| "segment_url_loop base (su # sus) items =
     (let media = str_or (get su ''media'') []
      in segment_url_loop base sus
           (if media \<noteq> [] then add_item items (join_url base media) else items))"

definition parse_segment_list :: "element \<Rightarrow> element \<Rightarrow> string \<Rightarrow> items \<Rightarrow> items" where
  "parse_segment_list rep adp base items =
     (case elem_or (find_child rep ''SegmentList'') (find_child adp ''SegmentList'') of
        None \<Rightarrow> items
      | Some sl \<Rightarrow>
          (let source = (case find_child sl ''Initialization'' of
                           None \<Rightarrow> []
                         | Some init \<Rightarrow> str_or (get init ''sourceURL'') []);
               items1 = (if source \<noteq> [] then add_item items (join_url base source) else items)
           in segment_url_loop base (findall sl ''SegmentURL'') items1))"

definition collect_step ::
  "args \<Rightarrow> string option \<Rightarrow> element \<times> element \<times> string \<Rightarrow> items \<Rightarrow> error + items" where
  \<comment> \<open>the body of the loop of \<^verbatim>\<open>collect_items\<close>\<close>
  "collect_step a count_env triple items =
     (case triple of (rep, adp, eff) \<Rightarrow>
        if \<not> matches_filters rep adp a then Inr items
        else
          (case parse_segment_template count_env rep adp eff
                  (parse_segment_list rep adp eff items) of
             Inl e \<Rightarrow> Inl e
           | Inr items2 \<Rightarrow>
               Inr (if items2 = [] \<and> splitext_ext (p_path (urlparse eff [])) \<noteq> []
                    then add_item items2 eff else items2)))"

fun collect_loop ::
  "args \<Rightarrow> string option \<Rightarrow> (element \<times> element \<times> string) list \<Rightarrow> items \<Rightarrow> error + items" where
  "collect_loop a count_env [] items = Inr items"
| "collect_loop a count_env (triple # triples) items =
     (case collect_step a count_env triple items of
        Inl e \<Rightarrow> Inl e
      | Inr items' \<Rightarrow> collect_loop a count_env triples items')"

definition all_items :: "items \<Rightarrow> download_item list" where
  \<comment> \<open>\<^verbatim>\<open>list(items.values())\<close>\<close>
  "all_items items = map snd items"

definition collect_items ::
  "element \<Rightarrow> string \<Rightarrow> args \<Rightarrow> string option \<Rightarrow> error + download_item list" where
  \<comment> \<open>\<^verbatim>\<open>collect_items\<close> on the parsed manifest; the last argument is the value of the
      environment variable \<^verbatim>\<open>DASH_SEGMENT_COUNT\<close>\<close>
  "collect_items root base_url a count_env =
     (case collect_loop a count_env (effective_base_urls_hierarchy root base_url) [] of
        Inl e \<Rightarrow> Inl e
      | Inr items \<Rightarrow> Inr (all_items items))"

definition check_domain :: "string \<Rightarrow> string option \<Rightarrow> bool" where
  "check_domain u only_domain =
     (if str_or only_domain [] = [] then True
      else hostname (urlparse u []) = Some (str_or only_domain []))"

text \<open>
  \<^verbatim>\<open>download_one\<close> talks to the network and the file system. One pass through the body
  of its \<^verbatim>\<open>try\<close> (request, streaming to the temporary file, rename) is one request; the
  function \<open>net\<close> gives the outcome of the request number \<open>n\<close> (counted from 0): it
  completes, or an exception with a description is raised. The model returns the value of
  \<^verbatim>\<open>download_one\<close> (\<open>None\<close> when the function falls off its loop), the number of requests
  made and the delays slept.
\<close>

datatype outcome = Fetched | Raised string

record download_trace =
  outcome_of :: "(string \<times> bool \<times> string option) option"
  requests :: nat
  sleeps :: "int list"

function attempt_loop ::
  "(nat \<Rightarrow> outcome) \<Rightarrow> string \<Rightarrow> int \<Rightarrow> int \<Rightarrow> nat \<Rightarrow> int list \<Rightarrow> download_trace" where
  \<comment> \<open>\<^verbatim>\<open>while attempt <= retries\<close>\<close>
  "attempt_loop net u retries attempt n slept =
     (if attempt \<le> retries then
        (case net n of
           Fetched \<Rightarrow> \<lparr>outcome_of = Some (u, True, None), requests = Suc n, sleeps = slept\<rparr>
         | Raised e \<Rightarrow>
             (if attempt + 1 > retries
              then \<lparr>outcome_of = Some (u, False, Some e), requests = Suc n, sleeps = slept\<rparr>
              else attempt_loop net u retries (attempt + 1) (Suc n)
                     (slept @ [min (2 ^ nat (attempt + 1)) 10])))
      else \<lparr>outcome_of = None, requests = n, sleeps = slept\<rparr>)"
  by pat_completeness auto
termination
  by (relation "measure (\<lambda>(net, u, retries, attempt, n, slept). nat (retries + 1 - attempt))") auto

definition download_one ::
  "(nat \<Rightarrow> outcome) \<Rightarrow> download_item \<Rightarrow> int \<Rightarrow> string option \<Rightarrow> download_trace" where
  "download_one net item retries only_domain =
     (if \<not> check_domain (url item) only_domain
      then \<lparr>outcome_of = Some (url item, False, Some ''wrong domain''), requests = 0, sleeps = []\<rparr>
      else attempt_loop net (url item) retries 0 0 [])"

section \<open>Notions the specification uses\<close>

text \<open>
  The order in which the elements of a list occur for the first time: what a listing
  "in insertion order" of a registry without duplicates is compared with.
\<close>

function first_occurrences :: "'a list \<Rightarrow> 'a list" where
  "first_occurrences [] = []"
| "first_occurrences (x # xs) = x # first_occurrences (filter (\<lambda>y. y \<noteq> x) xs)"
  by pat_completeness auto
termination
  by (relation "measure length") (auto simp: less_Suc_eq_le)

text \<open>The registry after registering the URLs of a list, one after the other, from an empty registry.\<close>

definition register_all :: "string list \<Rightarrow> items" where
  "register_all us = foldl add_item [] us"

text \<open>
  The meaningful base-URL overrides of a level: the texts of its \<^verbatim>\<open>BaseURL\<close> children,
  white space removed at both ends, except the empty text and \<^verbatim>\<open>/\<close>.
\<close>

definition meaningful_overrides :: "element \<Rightarrow> string list" where
  "meaningful_overrides level =
     filter (\<lambda>t. t \<noteq> [] \<and> t \<noteq> ''/'')
       (map strip (List.map_filter elem_text (findall level ''BaseURL'')))"

text \<open>
  The effective bases of a chain of levels, in the words of the specification: every
  meaningful override of a level is joined to the parent's effective base, and a level
  with no meaningful override passes the parent's base through unchanged.
\<close>

fun spec_effective_bases :: "string \<Rightarrow> element list \<Rightarrow> string list" where
  "spec_effective_bases base [] = [base]"
| "spec_effective_bases base (level # levels) =
     (if meaningful_overrides level = [] then spec_effective_bases base levels
      else concat (map (\<lambda>ov. spec_effective_bases (urljoin base ov) levels)
                     (meaningful_overrides level)))"

text \<open>The count of meaningful overrides of a level, taking 1 for a level with none.\<close>

definition level_count :: "element \<Rightarrow> nat" where
  "level_count level = max 1 (length (meaningful_overrides level))"

text \<open>
  A timeline entry of the data model: an optional start time, an optional duration and a
  repeat count that is not negative.
\<close>

record timeline_entry =
  startTime :: "int option"
  duration :: "int option"
  repeatCount :: nat

text \<open>
  The times a timeline emits, in the words of the specification. The cursor an entry starts
  from is its own start time when it declares one, else the running cursor, else 0 for the
  first entry. An entry emits \<open>repeatCount + 1\<close> times; with a duration \<open>d\<close> the cursor
  advances by \<open>d\<close> after every emission, the last one included; without one it stays.
\<close>

definition spec_entry_start :: "int option \<Rightarrow> timeline_entry \<Rightarrow> int" where
  "spec_entry_start cursor e =
     (case startTime e of
        Some t \<Rightarrow> t
      | None \<Rightarrow> (case cursor of Some c \<Rightarrow> c | None \<Rightarrow> 0))"

definition spec_entry_times :: "int option \<Rightarrow> timeline_entry \<Rightarrow> int list" where
  "spec_entry_times cursor e =
     (case duration e of
        Some d \<Rightarrow> map (\<lambda>k. spec_entry_start cursor e + int k * d) [0 ..< repeatCount e + 1]
      | None \<Rightarrow> replicate (repeatCount e + 1) (spec_entry_start cursor e))"

definition spec_entry_next :: "int option \<Rightarrow> timeline_entry \<Rightarrow> int" where
  "spec_entry_next cursor e =
     (case duration e of
        Some d \<Rightarrow> spec_entry_start cursor e + int (repeatCount e + 1) * d
      | None \<Rightarrow> spec_entry_start cursor e)"

fun spec_timeline_times :: "int option \<Rightarrow> timeline_entry list \<Rightarrow> int list" where
  "spec_timeline_times cursor [] = []"
| "spec_timeline_times cursor (e # es) =
     spec_entry_times cursor e @ spec_timeline_times (Some (spec_entry_next cursor e)) es"

text \<open>
  The timeline entry an \<^verbatim>\<open>S\<close> element denotes: its attributes \<^verbatim>\<open>t\<close>, \<^verbatim>\<open>d\<close> and
  \<^verbatim>\<open>r\<close> read as integers (\<^verbatim>\<open>r\<close> absent or empty reads as 0). There is none when an
  attribute is not an integer or the repeat count is negative.
\<close>

definition entry_of :: "element \<Rightarrow> timeline_entry option" where
  "entry_of s =
     (case py_int (str_or (get s ''r'') ''0'') of
        None \<Rightarrow> None
      | Some r \<Rightarrow>
          if r < 0 \<or> (case get s ''t'' of None \<Rightarrow> False | Some t \<Rightarrow> py_int t = None)
                   \<or> (case get s ''d'' of None \<Rightarrow> False | Some d \<Rightarrow> py_int d = None)
          then None
          else Some \<lparr>startTime = Option.bind (get s ''t'') py_int,
                     duration = Option.bind (get s ''d'') py_int,
                     repeatCount = nat r\<rparr>)"

fun entries_of :: "element list \<Rightarrow> timeline_entry list option" where
  "entries_of [] = Some []"
| "entries_of (s # ss) =
     (case entry_of s of
        None \<Rightarrow> None
      | Some e \<Rightarrow> map_option (\<lambda>es. e # es) (entries_of ss))"

text \<open>The delay before a retry, after \<open>i\<close> failed attempts: doubling, capped at 10 seconds.\<close>

definition backoff :: "nat \<Rightarrow> int" where
  "backoff i = min (2 ^ i) 10"

text \<open>
  A relative path read as a directory: with a slash at its end, unless it is empty or has
  one. The path of a URL without its leading slashes, and the query of a URL.
\<close>

definition as_directory :: "string \<Rightarrow> string" where
  "as_directory rel = (if rel = [] \<or> last rel = CHR ''/'' then rel else rel @ ''/'')"

definition url_rel :: "string \<Rightarrow> string" where
  "url_rel u = lstrip_chars ''/'' (p_path (urlparse u []))"

definition url_query :: "string \<Rightarrow> string" where
  "url_query u = p_query (urlparse u [])"

text \<open>
  What a representation and its adaptation set declare under an element name: the
  representation's element when it has child elements, otherwise, when the representation
  has no such element, the adaptation set's element or nothing. An element without child
  elements on the representation itself is not covered by this notion.
\<close>

definition declares :: "element \<Rightarrow> element \<Rightarrow> string \<Rightarrow> element option \<Rightarrow> bool" where
  "declares rep adp n x =
     ((case x of None \<Rightarrow> False | Some e \<Rightarrow> find_child rep n = Some e \<and> children e \<noteq> [])
      \<or> (find_child rep n = None \<and> find_child adp n = x))"

text \<open>
  The URLs of an explicit segment list, in the words of the specification: the resolved
  initialization URL, then every declared media URL, each joined to the effective base.
\<close>

definition spec_list_urls :: "element option \<Rightarrow> string \<Rightarrow> string list" where
  "spec_list_urls lst base =
     (case lst of
        None \<Rightarrow> []
      | Some sl \<Rightarrow>
          (case find_child sl ''Initialization'' of
             None \<Rightarrow> []
           | Some init \<Rightarrow>
               (if str_or (get init ''sourceURL'') [] = [] then []
                else [urljoin base (str_or (get init ''sourceURL'') [])]))
          @ [urljoin base (str_or (get su ''media'') []).
               su \<leftarrow> findall sl ''SegmentURL'', str_or (get su ''media'') [] \<noteq> []])"

text \<open>The results of a list of expansions, when none of them failed.\<close>

fun all_right :: "('e + 'a) list \<Rightarrow> 'a list option" where
  "all_right [] = Some []"
| "all_right (Inl e # xs) = None"
| "all_right (Inr x # xs) = map_option ((#) x) (all_right xs)"

text \<open>
  The URLs of a segment template, in the words of the specification: the resolved
  initialization pattern, then the media pattern expanded at the times of the timeline or,
  without a timeline, at the segment numbers from the start number for the supplied count.
  There is none when an attribute does not read as an integer, the count is missing or an
  expansion fails.
\<close>

definition spec_template_urls ::
  "string option \<Rightarrow> element option \<Rightarrow> element \<Rightarrow> string \<Rightarrow> string list option" where
  "spec_template_urls count_env tpl rep base =
     (case tpl of
        None \<Rightarrow> Some []
      | Some st \<Rightarrow>
          (let init = str_or (get st ''initialization'') [];
               media = str_or (get st ''media'') [];
               init_urls = (if init = [] then [] else [urljoin base (initialize_url_pattern init rep)])
           in if media = [] then Some init_urls
              else
                (case py_int (str_or (get st ''startNumber'') ''1'') of
                   None \<Rightarrow> None
                 | Some start_number \<Rightarrow>
                     (case find_child st ''SegmentTimeline'' of
                        Some timeline \<Rightarrow>
                          (case entries_of (findall timeline ''S'') of
                             None \<Rightarrow> None
                           | Some es \<Rightarrow>
                               map_option (\<lambda>segs. init_urls @ map (urljoin base) segs)
                                 (all_right (map (\<lambda>t. expand_media_template media rep None (Some t))
                                               (spec_timeline_times None es))))
                      | None \<Rightarrow>
                          (case py_int (str_or count_env []) of
                             None \<Rightarrow> None
                           | Some count \<Rightarrow>
                               map_option (\<lambda>segs. init_urls @ map (urljoin base) segs)
                                 (all_right (map (\<lambda>i. expand_media_template media rep (Some i) None)
                                               [start_number .. start_number + count - 1])))))))"


section \<open>Example manifests\<close>

definition el :: "string \<Rightarrow> (string \<times> string) list \<Rightarrow> element list \<Rightarrow> element" where
  \<comment> \<open>an element of the manifest's namespace without text\<close>
  "el n attrs cs = Element (qname n) attrs None cs"

definition base_el :: "string \<Rightarrow> element" where
  \<comment> \<open>a \<^verbatim>\<open>BaseURL\<close> element with the given text\<close>
  "base_el t = Element (qname ''BaseURL'') [] (Some t) []"

definition no_filters :: args where
  "no_filters = \<lparr>filter_repr_id = None, filter_mime = None\<rparr>"

definition mirrors_rep :: element where
  "mirrors_rep = el ''Representation'' [(''id'', ''v1'')] [base_el ''hi/'', base_el ''lo/'']"

definition mirrors_adp :: element where
  "mirrors_adp = el ''AdaptationSet'' [] [base_el ''video/'', mirrors_rep]"

definition mirrors_period :: element where
  "mirrors_period = el ''Period'' [] [mirrors_adp]"

definition mirrors_mpd :: element where
  \<comment> \<open>two mirrors and a no-op override at the root, two overrides at the representation\<close>
  "mirrors_mpd = el ''MPD'' []
     [base_el ''http://cdn1.example/'', base_el '' / '', base_el ''http://cdn2.example/v/'',
      mirrors_period]"

definition timeline_rep :: element where
  "timeline_rep = el ''Representation'' [(''id'', ''v1'')] []"

definition timeline_s1 :: element where
  "timeline_s1 = el ''S'' [(''t'', ''0''), (''d'', ''2''), (''r'', ''1'')] []"

definition timeline_s2 :: element where
  "timeline_s2 = el ''S'' [(''d'', ''3''), (''r'', ''0'')] []"

definition timeline_s3 :: element where
  "timeline_s3 = el ''S'' [(''t'', ''5''), (''r'', ''2'')] []"


text \<open>An endpoint that fails twice and then succeeds, and an item to download.\<close>

definition flaky_twice :: "nat \<Rightarrow> outcome" where
  "flaky_twice n = (if n < 2 then Raised ''boom'' else Fetched)"

definition segment_item :: download_item where
  "segment_item = \<lparr>url = ''http://b.example/v/seg.m4s'', relpath = ''v/seg.m4s''\<rparr>"

text \<open>A representation that declares a segment list and a segment template.\<close>

definition both_rep :: element where
  "both_rep = el ''Representation'' [(''id'', ''v1'')]
     [el ''SegmentList'' [] [el ''SegmentURL'' [(''media'', ''a.m4s'')] []],
      el ''SegmentTemplate''
         [(''media'', ''t-$Time$.m4s''), (''initialization'', ''init-$RepresentationID$.mp4'')]
         [el ''SegmentTimeline'' [] [timeline_s1, timeline_s2]]]"

definition both_adp :: element where
  "both_adp = el ''AdaptationSet'' [] [both_rep]"

definition both_mpd :: element where
  "both_mpd = el ''MPD'' [] [el ''Period'' [] [both_adp]]"

text \<open>Two representations that each name one file by a base URL, with no segment information.\<close>

definition video_rep :: element where
  "video_rep = el ''Representation'' [(''id'', ''v1'')] [base_el ''video.mp4'']"

definition audio_rep :: element where
  "audio_rep = el ''Representation'' [(''id'', ''a1'')] [base_el ''audio.mp4'']"

definition files_adp :: element where
  "files_adp = el ''AdaptationSet'' [] [video_rep, audio_rep]"

definition files_mpd :: element where
  "files_mpd = el ''MPD'' [] [el ''Period'' [] [files_adp]]"

text \<open>
  A number-based segment template without timeline (an element without children), declared
  on the representation, and the same template declared on the adaptation set.
\<close>

definition number_rep :: element where
  "number_rep = el ''Representation'' [(''id'', ''v1'')]
     [el ''SegmentTemplate'' [(''media'', ''seg-$Number$.m4s''), (''startNumber'', ''1'')] []]"

definition number_adp :: element where
  "number_adp = el ''AdaptationSet'' [] [number_rep]"

definition plain_rep :: element where
  "plain_rep = el ''Representation'' [(''id'', ''v1'')] []"

definition template_adp :: element where
  "template_adp = el ''AdaptationSet'' []
     [el ''SegmentTemplate'' [(''media'', ''seg-$Number$.m4s''), (''startNumber'', ''1'')] [], plain_rep]"


section \<open>The item registry\<close>

lemma keys_dict_set:
  "map fst (dict_set d k v) = (if k \<in> set (map fst d) then map fst d else map fst d @ [k])"
  by (induction d k v rule: dict_set.induct) auto

lemma keys_add_item:
  "map fst (add_item items u) = (if u \<in> set (map fst items) then map fst items else map fst items @ [u])"
  by (simp only: add_item_def keys_dict_set)

lemma length_add_item_le: "length (add_item items u) \<le> Suc (length items)"
proof -
  have "length (map fst (add_item items u)) \<le> Suc (length items)"
    by (simp add: keys_add_item)
  then show ?thesis by simp
qed

lemma dict_set_idem: "dict_set (dict_set d k v) k v = dict_set d k v"
  by (induction d k v rule: dict_set.induct) auto

lemma add_item_idem: "add_item (add_item items u) u = add_item items u"
  by (simp add: add_item_def dict_set_idem)

lemma dict_set_keyed:
  "list_all (\<lambda>(k', v'). f v' = k') d \<Longrightarrow> f v = k \<Longrightarrow> list_all (\<lambda>(k', v'). f v' = k') (dict_set d k v)"
  by (induction d k v rule: dict_set.induct) auto

lemma add_item_keyed:
  "list_all (\<lambda>(k, v). url v = k) items \<Longrightarrow> list_all (\<lambda>(k, v). url v = k) (add_item items u)"
  unfolding add_item_def by (rule dict_set_keyed) simp_all

lemma foldl_add_item_keyed:
  "list_all (\<lambda>(k, v). url v = k) items \<Longrightarrow> list_all (\<lambda>(k, v). url v = k) (foldl add_item items us)"
proof (induction us arbitrary: items)
  case Nil
  then show ?case by simp
next
  case (Cons x xs)
  from Cons.prems have "list_all (\<lambda>(k, v). url v = k) (add_item items x)"
    by (rule add_item_keyed)
  then show ?case by (simp add: Cons.IH)
qed

lemma keyed_urls: "list_all (\<lambda>(k, v). url v = k) items \<Longrightarrow> map url (all_items items) = map fst items"
  by (induction items) (auto simp: all_items_def)

lemma keys_foldl_add_item:
  "map fst (foldl add_item items us)
     = map fst items @ first_occurrences (filter (\<lambda>u. u \<notin> set (map fst items)) us)"
proof (induction us arbitrary: items)
  case Nil
  then show ?case by simp
next
  case (Cons x xs)
  show ?case
  proof (cases "x \<in> set (map fst items)")
    case True
    then show ?thesis by (simp add: Cons.IH keys_add_item)
  next
    case False
    have "filter (\<lambda>u. u \<notin> set (map fst items @ [x])) xs
            = filter (\<lambda>y. y \<noteq> x) (filter (\<lambda>u. u \<notin> set (map fst items)) xs)"
      by (auto intro: filter_cong)
    with False show ?thesis by (simp add: Cons.IH keys_add_item)
  qed
qed

lemma set_first_occurrences: "set (first_occurrences xs) = set xs"
  by (induction xs rule: first_occurrences.induct) auto

lemma distinct_first_occurrences: "distinct (first_occurrences xs)"
  by (induction xs rule: first_occurrences.induct) (auto simp: set_first_occurrences)

lemma urls_register_all: "map url (all_items (register_all us)) = first_occurrences us"
proof -
  have "list_all (\<lambda>(k, v). url v = k) (register_all us)"
    unfolding register_all_def by (rule foldl_add_item_keyed) simp
  then have "map url (all_items (register_all us)) = map fst (register_all us)"
    by (rule keyed_urls)
  also have "\<dots> = first_occurrences us"
    by (simp add: register_all_def keys_foldl_add_item)
  finally show ?thesis .
qed

lemma count_distinct: "distinct xs \<Longrightarrow> length (filter (\<lambda>y. y = u) xs) = (if u \<in> set xs then 1 else 0)"
  by (induction xs) auto

lemma foldl_add_item_replicate:
  "foldl add_item items (replicate n u) = (if n = 0 then items else add_item items u)"
proof (induction n)
  case 0
  then show ?case by simp
next
  case (Suc n)
  have "foldl add_item items (replicate (Suc n) u) = add_item (foldl add_item items (replicate n u)) u"
  proof -
    have "replicate (Suc n) u = replicate n u @ [u]"
      by (simp add: replicate_append_same)
    then show ?thesis by simp
  qed
  then show ?case by (simp add: Suc.IH add_item_idem)
qed


section \<open>The base-URL hierarchy\<close>

lemma collect_baseurls_eq:
  "collect_baseurls bs = filter (\<lambda>t. t \<noteq> [] \<and> t \<noteq> ''/'') (map strip (List.map_filter elem_text bs))"
  by (induction bs) (auto simp: clean_baseurl_text_def List.map_filter_simps Let_def split: option.splits)

lemma get_all_baseurls_eq:
  "get_all_baseurls e = (if meaningful_overrides e = [] then [[]] else meaningful_overrides e)"
  by (simp add: get_all_baseurls_def meaningful_overrides_def collect_baseurls_eq Let_def)

lemma urljoin_empty: "urljoin b [] = b"
  by (simp add: urljoin_def)

lemma level_step:
  "concat (map (\<lambda>b. spec_effective_bases b levels) [join_url b ov. b \<leftarrow> bs, ov \<leftarrow> get_all_baseurls level])
     = concat (map (\<lambda>b. spec_effective_bases b (level # levels)) bs)"
  by (induction bs) (simp_all add: get_all_baseurls_eq urljoin_empty join_url_def map_concat comp_def)

lemma bases_of_chain:
  "[join_url a b. a \<leftarrow> [join_url p b. p \<leftarrow> [join_url m b. m \<leftarrow> [join_url base b. b \<leftarrow> get_all_baseurls root],
        b \<leftarrow> get_all_baseurls period], b \<leftarrow> get_all_baseurls adp], b \<leftarrow> get_all_baseurls rep]
     = spec_effective_bases base [root, period, adp, rep]"
proof -
  have one: "xs = concat (map (\<lambda>b. spec_effective_bases b []) xs)" for xs :: "string list"
    by (induction xs) simp_all
  have first: "[join_url base b. b \<leftarrow> get_all_baseurls root] = [join_url m b. m \<leftarrow> [base], b \<leftarrow> get_all_baseurls root]"
    by simp
  show ?thesis
    apply (subst one)
    apply (subst first)
    apply (simp only: level_step)
    apply simp
    done
qed

lemma length_concat_const:
  "(\<And>x. x \<in> set xs \<Longrightarrow> length (f x) = n) \<Longrightarrow> length (concat (map f xs)) = length xs * n"
  by (induction xs) simp_all

lemma length_spec_effective_bases:
  "length (spec_effective_bases base levels) = prod_list (map level_count levels)"
proof (induction levels arbitrary: base)
  case Nil
  then show ?case by simp
next
  case (Cons level levels)
  show ?case
  proof (cases "meaningful_overrides level = []")
    case True
    then show ?thesis by (simp add: Cons.IH level_count_def)
  next
    case False
    then have "level_count level = length (meaningful_overrides level)"
      by (cases "meaningful_overrides level") (simp_all add: level_count_def)
    moreover have "length (concat (map (\<lambda>ov. spec_effective_bases (urljoin base ov) levels) (meaningful_overrides level)))
            = length (meaningful_overrides level) * prod_list (map level_count levels)"
      by (rule length_concat_const) (simp add: Cons.IH)
    ultimately show ?thesis using False by simp
  qed
qed


section \<open>Timeline expansion\<close>

lemma upt_Suc_shift: "[0 ..< Suc n] = 0 # map Suc [0 ..< n]"
  by (simp add: upt_conv_Cons map_Suc_upt del: upt_Suc)

lemma repeat_loop_times:
  assumes "(d_attr = None \<and> dv = 0) \<or> (\<exists>dt. d_attr = Some dt \<and> py_int dt = Some dv)"
      and "\<And>k. k < n \<Longrightarrow>
             expand_media_template media rep None (Some (cur + int k * dv)) = Inr (seg (cur + int k * dv))"
  shows "repeat_loop media rep base d_attr n cur items
           = Inr (cur + int n * dv,
                  foldl add_item items (map (\<lambda>k. join_url base (seg (cur + int k * dv))) [0 ..< n]))"
  using assms(2)
proof (induction n arbitrary: cur items)
  case 0
  then show ?case by simp
next
  case (Suc n)
  have e0: "expand_media_template media rep None (Some cur) = Inr (seg cur)"
    using Suc.prems [of 0] by simp
  have step: "\<And>k. k < n \<Longrightarrow>
      expand_media_template media rep None (Some (cur + dv + int k * dv)) = Inr (seg (cur + dv + int k * dv))"
  proof -
    fix k assume "k < n"
    then have "Suc k < Suc n" by simp
    from Suc.prems [OF this] show "expand_media_template media rep None (Some (cur + dv + int k * dv))
        = Inr (seg (cur + dv + int k * dv))"
      by (simp add: algebra_simps)
  qed
  note ih = Suc.IH [of "cur + dv" "add_item items (join_url base (seg cur))", OF step]
  have shift: "map (\<lambda>k. join_url base (seg (cur + int k * dv))) [0 ..< Suc n]
      = join_url base (seg cur) # map (\<lambda>k. join_url base (seg (cur + dv + int k * dv))) [0 ..< n]"
    by (simp only: upt_Suc_shift) (simp add: comp_def algebra_simps)
  have "repeat_loop media rep base d_attr (Suc n) cur items
      = Inr (cur + int (Suc n) * dv,
             foldl add_item items (join_url base (seg cur)
               # map (\<lambda>k. join_url base (seg (cur + dv + int k * dv))) [0 ..< n]))"
    using assms(1) ih e0 by (auto simp: algebra_simps)
  then show ?case by (simp only: shift)
qed


lemma timeline_entry_times:
  assumes e: "entry_of s = Some e"
      and x: "\<And>t. t \<in> set (spec_entry_times current_time e) \<Longrightarrow>
                 expand_media_template media rep None (Some t) = Inr (seg t)"
  shows "timeline_entry media rep base s current_time items
           = Inr (spec_entry_next current_time e,
                  foldl add_item items
                    (map (\<lambda>t. join_url base (seg t)) (spec_entry_times current_time e)))"
proof -
  from e obtain r where r: "py_int (str_or (get s ''r'') ''0'') = Some r" "0 \<le> r"
    and tt: "get s ''t'' = None \<or> (\<exists>t tv. get s ''t'' = Some t \<and> py_int t = Some tv)"
    and dd: "get s ''d'' = None \<or> (\<exists>d dv. get s ''d'' = Some d \<and> py_int d = Some dv)"
    and ee: "e = \<lparr>startTime = Option.bind (get s ''t'') py_int,
                   duration = Option.bind (get s ''d'') py_int, repeatCount = nat r\<rparr>"
    by (auto simp: entry_of_def split: option.splits if_splits)
  define start where "start = spec_entry_start current_time e"
  define dv where "dv = (case duration e of Some d \<Rightarrow> d | None \<Rightarrow> 0)"
  define n where "n = repeatCount e + 1"
  have n: "nat (r + 1) = n"
    using r(2) by (simp add: n_def ee nat_add_distrib)
  have cur: "(case get s ''t'' of
                Some t \<Rightarrow> py_int t
              | None \<Rightarrow> Some (case current_time of None \<Rightarrow> 0 | Some c \<Rightarrow> c)) = Some start"
    using tt by (auto simp: start_def spec_entry_start_def ee split: option.splits)
  have d: "(get s ''d'' = None \<and> dv = 0) \<or> (\<exists>dt. get s ''d'' = Some dt \<and> py_int dt = Some dv)"
    using dd by (auto simp: dv_def ee)
  have times: "spec_entry_times current_time e = map (\<lambda>k. start + int k * dv) [0 ..< n]"
    by (auto simp: spec_entry_times_def start_def dv_def n_def map_replicate_const
             replicate_append_same split: option.splits)
  have nxt: "spec_entry_next current_time e = start + int n * dv"
    by (auto simp: spec_entry_next_def start_def dv_def n_def split: option.splits)
  have "\<And>k. k < n \<Longrightarrow>
      expand_media_template media rep None (Some (start + int k * dv)) = Inr (seg (start + int k * dv))"
    by (rule x) (auto simp: times)
  from repeat_loop_times [OF d this]
  have "repeat_loop media rep base (get s ''d'') n start items
          = Inr (start + int n * dv,
                 foldl add_item items (map (\<lambda>k. join_url base (seg (start + int k * dv))) [0 ..< n]))" .
  then show ?thesis
    by (simp add: timeline_entry_def r(1) cur n times nxt comp_def)
qed

lemma timeline_loop_times:
  assumes "entries_of ss = Some es"
      and "\<And>t. t \<in> set (spec_timeline_times current_time es) \<Longrightarrow>
             expand_media_template media rep None (Some t) = Inr (seg t)"
  shows "timeline_loop media rep base ss current_time items
           = Inr (foldl add_item items
                    (map (\<lambda>t. join_url base (seg t)) (spec_timeline_times current_time es)))"
  using assms
proof (induction ss arbitrary: es current_time items)
  case Nil
  then show ?case by simp
next
  case (Cons s ss)
  from Cons.prems(1) obtain e es' where e: "entry_of s = Some e" and es': "entries_of ss = Some es'"
    and es: "es = e # es'"
    by (auto split: option.splits)
  have a: "timeline_entry media rep base s current_time items
             = Inr (spec_entry_next current_time e,
                    foldl add_item items
                      (map (\<lambda>t. join_url base (seg t)) (spec_entry_times current_time e)))"
    by (rule timeline_entry_times [OF e]) (simp add: Cons.prems(2) es)
  have b: "timeline_loop media rep base ss (Some (spec_entry_next current_time e))
             (foldl add_item items (map (\<lambda>t. join_url base (seg t)) (spec_entry_times current_time e)))
           = Inr (foldl add_item
                    (foldl add_item items (map (\<lambda>t. join_url base (seg t)) (spec_entry_times current_time e)))
                    (map (\<lambda>t. join_url base (seg t))
                       (spec_timeline_times (Some (spec_entry_next current_time e)) es')))"
    by (rule Cons.IH [OF es']) (simp add: Cons.prems(2) es)
  show ?case
    by (simp add: a b es)
qed



section \<open>The retry loop\<close>

declare attempt_loop.simps [simp del]

lemma upt_1_shift: "[1 ..< Suc (Suc m)] = 1 # map Suc [1 ..< Suc m]"
  by (simp add: upt_conv_Cons map_Suc_upt del: upt_Suc)

lemma attempt_loop_fetched:
  "attempt \<le> retries \<Longrightarrow> net n = Fetched \<Longrightarrow>
   attempt_loop net u retries attempt n slept
     = \<lparr>outcome_of = Some (u, True, None), requests = Suc n, sleeps = slept\<rparr>"
  by (subst attempt_loop.simps) simp

lemma attempt_loop_retry:
  "attempt < retries \<Longrightarrow> net n = Raised x \<Longrightarrow>
   attempt_loop net u retries attempt n slept
     = attempt_loop net u retries (attempt + 1) (Suc n) (slept @ [min (2 ^ nat (attempt + 1)) 10])"
  by (subst attempt_loop.simps) simp

lemma attempt_loop_give_up:
  "attempt = retries \<Longrightarrow> net n = Raised x \<Longrightarrow>
   attempt_loop net u retries attempt n slept
     = \<lparr>outcome_of = Some (u, False, Some x), requests = Suc n, sleeps = slept\<rparr>"
  by (subst attempt_loop.simps) simp

lemma attempt_loop_skipped:
  "\<not> attempt \<le> retries \<Longrightarrow>
   attempt_loop net u retries attempt n slept = \<lparr>outcome_of = None, requests = n, sleeps = slept\<rparr>"
  by (subst attempt_loop.simps) simp

lemma backoff_shift:
  "map (\<lambda>i. min (2 ^ nat (attempt + int i)) (10::int)) [1 ..< Suc (Suc m)]
     = min (2 ^ nat (attempt + 1)) 10 # map (\<lambda>i. min (2 ^ nat (attempt + 1 + int i)) 10) [1 ..< Suc m]"
  by (simp only: upt_1_shift) (simp add: comp_def algebra_simps)

lemma attempt_loop_success:
  assumes "\<And>j. j < m \<Longrightarrow> net (n + j) = Raised (e (n + j))"
      and "net (n + m) = Fetched"
      and "attempt + int m \<le> retries"
  shows "attempt_loop net u retries attempt n slept
           = \<lparr>outcome_of = Some (u, True, None), requests = Suc (n + m),
              sleeps = slept @ map (\<lambda>i. min (2 ^ nat (attempt + int i)) 10) [1 ..< Suc m]\<rparr>"
  using assms
proof (induction m arbitrary: n attempt slept)
  case 0
  then show ?case by (simp add: attempt_loop_fetched)
next
  case (Suc m)
  have f: "net n = Raised (e n)"
    using Suc.prems(1) [of 0] by simp
  have a: "attempt < retries"
    using Suc.prems(3) by simp
  have "attempt_loop net u retries attempt n slept
      = attempt_loop net u retries (attempt + 1) (Suc n) (slept @ [min (2 ^ nat (attempt + 1)) 10])"
    using a f by (rule attempt_loop_retry)
  also have "\<dots> = \<lparr>outcome_of = Some (u, True, None), requests = Suc (Suc n + m),
         sleeps = (slept @ [min (2 ^ nat (attempt + 1)) 10])
                  @ map (\<lambda>i. min (2 ^ nat (attempt + 1 + int i)) 10) [1 ..< Suc m]\<rparr>"
  proof (rule Suc.IH)
    fix j assume "j < m"
    then show "net (Suc n + j) = Raised (e (Suc n + j))"
      using Suc.prems(1) [of "Suc j"] by simp
  next
    show "net (Suc n + m) = Fetched" using Suc.prems(2) by simp
  next
    show "attempt + 1 + int m \<le> retries" using Suc.prems(3) by simp
  qed
  also have "\<dots> = \<lparr>outcome_of = Some (u, True, None), requests = Suc (n + Suc m),
         sleeps = slept @ map (\<lambda>i. min (2 ^ nat (attempt + int i)) 10) [1 ..< Suc (Suc m)]\<rparr>"
    by (simp only: backoff_shift) simp
  finally show ?case .
qed

lemma attempt_loop_exhausted:
  assumes "\<And>j. j \<le> k \<Longrightarrow> net (n + j) = Raised (e (n + j))"
      and "attempt + int k = retries"
  shows "attempt_loop net u retries attempt n slept
           = \<lparr>outcome_of = Some (u, False, Some (e (n + k))), requests = Suc (n + k),
              sleeps = slept @ map (\<lambda>i. min (2 ^ nat (attempt + int i)) 10) [1 ..< Suc k]\<rparr>"
  using assms
proof (induction k arbitrary: n attempt slept)
  case 0
  have "net n = Raised (e n)" using "0.prems"(1) [of 0] by simp
  moreover have "attempt = retries" using "0.prems"(2) by simp
  ultimately show ?case by (simp add: attempt_loop_give_up)
next
  case (Suc k)
  have f: "net n = Raised (e n)"
    using Suc.prems(1) [of 0] by simp
  have a: "attempt < retries"
    using Suc.prems(2) by simp
  have "attempt_loop net u retries attempt n slept
      = attempt_loop net u retries (attempt + 1) (Suc n) (slept @ [min (2 ^ nat (attempt + 1)) 10])"
    using a f by (rule attempt_loop_retry)
  also have "\<dots> = \<lparr>outcome_of = Some (u, False, Some (e (Suc n + k))), requests = Suc (Suc n + k),
         sleeps = (slept @ [min (2 ^ nat (attempt + 1)) 10])
                  @ map (\<lambda>i. min (2 ^ nat (attempt + 1 + int i)) 10) [1 ..< Suc k]\<rparr>"
  proof (rule Suc.IH)
    fix j assume "j \<le> k"
    then show "net (Suc n + j) = Raised (e (Suc n + j))"
      using Suc.prems(1) [of "Suc j"] by simp
  next
    show "attempt + 1 + int k = retries" using Suc.prems(2) by simp
  qed
  also have "\<dots> = \<lparr>outcome_of = Some (u, False, Some (e (n + Suc k))), requests = Suc (n + Suc k),
         sleeps = slept @ map (\<lambda>i. min (2 ^ nat (attempt + int i)) 10) [1 ..< Suc (Suc k)]\<rparr>"
    by (simp only: backoff_shift) simp
  finally show ?case .
qed

lemma attempt_loop_requests:
  "requests (attempt_loop net u retries attempt n slept) \<le> n + nat (retries + 1 - attempt)"
proof (induction net u retries attempt n slept rule: attempt_loop.induct)
  case (1 net u retries attempt n slept)
  show ?case
  proof (cases "attempt \<le> retries")
    case False
    then show ?thesis by (simp add: attempt_loop_skipped)
  next
    case True
    show ?thesis
    proof (cases "net n")
      case Fetched
      with True show ?thesis by (simp add: attempt_loop_fetched)
    next
      case (Raised x)
      show ?thesis
      proof (cases "attempt + 1 > retries")
        case True
        with \<open>attempt \<le> retries\<close> have "attempt = retries" by simp
        from attempt_loop_give_up [where net = net and n = n, OF this Raised] show ?thesis
          using \<open>attempt = retries\<close> by simp
      next
        case False
        then have lt: "attempt < retries" by simp
        from "1.IH" [OF True Raised False]
        have "requests (attempt_loop net u retries (attempt + 1) (Suc n)
                 (slept @ [min (2 ^ nat (attempt + 1)) 10])) \<le> Suc n + nat (retries + 1 - (attempt + 1))" .
        with lt show ?thesis
          by (simp add: attempt_loop_retry [where net = net and n = n, OF lt Raised])
      qed
    qed
  qed
qed


section \<open>Relative paths\<close>

lemma quote_char_head: "\<exists>c' cs. quote_char c = c' # cs \<and> c' \<noteq> CHR ''/''"
proof (cases "c \<in> set always_safe")
  case True
  then have "c \<noteq> CHR ''/''"
    by (auto simp: always_safe_def ascii_upper_def ascii_lower_def digit_chars_def)
  with True show ?thesis by (simp add: quote_char_def)
next
  case False
  then show ?thesis by (simp add: quote_char_def)
qed

lemma quote_plus_not_absolute: "take 1 (quote_plus q) \<noteq> ''/''"
proof (cases q)
  case Nil
  then show ?thesis by (simp add: quote_plus_def)
next
  case (Cons c cs)
  obtain c' r where "quote_char c = c' # r" "c' \<noteq> CHR ''/''"
    using quote_char_head by blast
  with Cons show ?thesis by (simp add: quote_plus_def)
qed

lemma path_join_quote_plus:
  "path_join rel (quote_plus q)
     = (if rel = [] \<or> last rel = CHR ''/'' then rel @ quote_plus q else rel @ ''/'' @ quote_plus q)"
  using quote_plus_not_absolute [of q] by (simp add: path_join_def)

lemma of_char_less_256: "(of_char c :: nat) < 256"
proof -
  have "(of_char c :: nat) mod 256 < 256" by simp
  then show ?thesis by (simp only: of_char_mod_256)
qed

lemma hex_chars_distinct: "distinct hex_chars" and hex_chars_length: "length hex_chars = 16"
  by (simp_all add: hex_chars_def)

lemma hex_nth_inj: "i < 16 \<Longrightarrow> j < 16 \<Longrightarrow> hex_chars ! i = hex_chars ! j \<Longrightarrow> i = j"
  using hex_chars_distinct by (simp add: nth_eq_iff_index_eq hex_chars_length)

lemma hex_nth_mem: "i < 16 \<Longrightarrow> hex_chars ! i \<in> set hex_chars"
  by (simp add: hex_chars_length)

lemma safe_not_special:
  "c \<in> set always_safe \<Longrightarrow> c \<noteq> CHR ''/'' \<and> c \<noteq> CHR ''%'' \<and> c \<noteq> CHR ''+'' \<and> c \<noteq> CHR '' ''"
  by (auto simp: always_safe_def ascii_upper_def ascii_lower_def digit_chars_def)

lemma hex_not_slash: "c \<in> set hex_chars \<Longrightarrow> c \<noteq> CHR ''/''"
  by (auto simp: hex_chars_def)

lemma quote_char_no_slash: "CHR ''/'' \<notin> set (quote_char c)"
proof -
  have lt: "(of_char c :: nat) div 16 < 16" "(of_char c :: nat) mod 16 < 16"
    using of_char_less_256 [of c] by (simp_all add: less_mult_imp_div_less)
  have a: "hex_chars ! ((of_char c :: nat) div 16) \<noteq> CHR ''/''"
    by (rule hex_not_slash [OF hex_nth_mem [OF lt(1)]])
  have b: "hex_chars ! ((of_char c :: nat) mod 16) \<noteq> CHR ''/''"
    by (rule hex_not_slash [OF hex_nth_mem [OF lt(2)]])
  show ?thesis
    using safe_not_special [of c] a b by (auto simp: quote_char_def)
qed

lemma quote_plus_no_slash: "CHR ''/'' \<notin> set (quote_plus q)"
  by (induction q) (simp_all add: quote_plus_def quote_char_no_slash)

lemma quote_char_prefix_free:
  assumes "quote_char c @ r = quote_char d @ s"
  shows "c = d \<and> r = s"
proof -
  have lt: "(of_char c :: nat) div 16 < 16" "(of_char c :: nat) mod 16 < 16"
           "(of_char d :: nat) div 16 < 16" "(of_char d :: nat) mod 16 < 16"
    using of_char_less_256 [of c] of_char_less_256 [of d] by (simp_all add: less_mult_imp_div_less)
  consider (safe) "c \<in> set always_safe" | (space) "c \<notin> set always_safe" "c = CHR '' ''"
    | (other) "c \<notin> set always_safe" "c \<noteq> CHR '' ''"
    by blast
  then show ?thesis
  proof cases
    case safe
    then show ?thesis
      using assms safe_not_special [of c] safe_not_special [of d]
      by (auto simp: quote_char_def split: if_splits)
  next
    case space
    then show ?thesis
      using assms safe_not_special [of d]
      by (auto simp: quote_char_def split: if_splits)
  next
    case other
    show ?thesis
    proof (cases "d \<in> set always_safe \<or> d = CHR '' ''")
      case True
      then show ?thesis
        using assms other safe_not_special [of d]
        by (auto simp: quote_char_def split: if_splits)
    next
      case False
      with assms other have
        h: "hex_chars ! ((of_char c :: nat) div 16) = hex_chars ! ((of_char d :: nat) div 16)"
           "hex_chars ! ((of_char c :: nat) mod 16) = hex_chars ! ((of_char d :: nat) mod 16)"
        and rs: "r = s"
        by (auto simp: quote_char_def)
      from hex_nth_inj [OF lt(1) lt(3) h(1)] hex_nth_inj [OF lt(2) lt(4) h(2)]
      have "(of_char c :: nat) = of_char d"
        by (metis div_mult_mod_eq)
      then have "c = d" by simp
      with rs show ?thesis by simp
    qed
  qed
qed

lemma quote_char_not_empty: "quote_char c \<noteq> []"
  by (simp add: quote_char_def)

lemma quote_plus_inj: "quote_plus a = quote_plus b \<Longrightarrow> a = b"
proof (induction a arbitrary: b)
  case Nil
  then show ?case
    by (cases b) (simp_all add: quote_plus_def quote_char_not_empty)
next
  case (Cons c a)
  show ?case
  proof (cases b)
    case Nil
    with Cons.prems show ?thesis by (simp add: quote_plus_def quote_char_not_empty)
  next
    case (Cons d b')
    with Cons.prems have "quote_char c @ quote_plus a = quote_char d @ quote_plus b'"
      by (simp add: quote_plus_def)
    from quote_char_prefix_free [OF this] have "c = d" "quote_plus a = quote_plus b'" by simp_all
    with Cons.IH [of b'] Cons show ?thesis by simp
  qed
qed

lemma as_directory_shape: "as_directory rel = [] \<or> last (as_directory rel) = CHR ''/''"
  by (simp add: as_directory_def)

lemma last_segment_unique:
  assumes d: "d = [] \<or> last d = CHR ''/''" and q: "CHR ''/'' \<notin> set q"
  shows "rev (takeWhile (\<lambda>c. c \<noteq> CHR ''/'') (rev (d @ q))) = q"
proof -
  have "takeWhile (\<lambda>c. c \<noteq> CHR ''/'') (rev d) = []"
  proof (cases d rule: rev_cases)
    case Nil
    then show ?thesis by simp
  next
    case (snoc xs x)
    with d have "x = CHR ''/''" by simp
    with snoc show ?thesis by simp
  qed
  moreover have "takeWhile (\<lambda>c. c \<noteq> CHR ''/'') (rev q @ rev d)
                   = rev q @ takeWhile (\<lambda>c. c \<noteq> CHR ''/'') (rev d)"
    by (rule takeWhile_append2) (use q in auto)
  ultimately have "takeWhile (\<lambda>c. c \<noteq> CHR ''/'') (rev q @ rev d) = rev q"
    by simp
  then show ?thesis by simp
qed

lemma directory_and_segment:
  assumes "d1 = [] \<or> last d1 = CHR ''/''" "d2 = [] \<or> last d2 = CHR ''/''"
      and "CHR ''/'' \<notin> set q1" "CHR ''/'' \<notin> set q2"
      and "d1 @ q1 = d2 @ q2"
  shows "d1 = d2 \<and> q1 = q2"
proof -
  have "q1 = rev (takeWhile (\<lambda>c. c \<noteq> CHR ''/'') (rev (d1 @ q1)))"
    by (rule last_segment_unique [OF assms(1) assms(3), symmetric])
  also have "\<dots> = rev (takeWhile (\<lambda>c. c \<noteq> CHR ''/'') (rev (d2 @ q2)))"
    by (simp only: assms(5))
  also have "\<dots> = q2"
    by (rule last_segment_unique [OF assms(2) assms(4)])
  finally have "q1 = q2" .
  with assms(5) show ?thesis by simp
qed

lemma relpath_shape:
  "ensure_relpath_from_url u
     = (if url_query u = [] then url_rel u else as_directory (url_rel u) @ quote_plus (url_query u))"
  by (simp add: ensure_relpath_from_url_def path_join_quote_plus Let_def url_rel_def url_query_def
        as_directory_def)


section \<open>Segment resolution only adds to the registry\<close>

lemma keys_add_item_mono: "fst ` set items \<subseteq> fst ` set (add_item items u)"
proof -
  have "set (map fst items) \<subseteq> set (map fst (add_item items u))"
    by (simp only: keys_add_item) auto
  then show ?thesis by simp
qed

lemma keys_segment_url_loop: "fst ` set items \<subseteq> fst ` set (segment_url_loop base sus items)"
proof (induction sus arbitrary: items)
  case Nil
  then show ?case by simp
next
  case (Cons su sus)
  define mid where "mid = (if str_or (get su ''media'') [] \<noteq> []
                           then add_item items (join_url base (str_or (get su ''media'') []))
                           else items)"
  have "fst ` set items \<subseteq> fst ` set mid"
    using keys_add_item_mono [of items "join_url base (str_or (get su ''media'') [])"]
    by (simp add: mid_def)
  also have "\<dots> \<subseteq> fst ` set (segment_url_loop base sus mid)"
    by (rule Cons.IH)
  also have "segment_url_loop base sus mid = segment_url_loop base (su # sus) items"
    by (simp add: mid_def Let_def)
  finally show ?case .
qed

lemma keys_parse_segment_list: "fst ` set items \<subseteq> fst ` set (parse_segment_list rep adp base items)"
proof (cases "elem_or (find_child rep ''SegmentList'') (find_child adp ''SegmentList'')")
  case None
  then show ?thesis by (simp add: parse_segment_list_def)
next
  case (Some sl)
  define source where "source = (case find_child sl ''Initialization'' of
                           None \<Rightarrow> []
                         | Some init \<Rightarrow> str_or (get init ''sourceURL'') [])"
  define items1 where "items1 = (if source \<noteq> [] then add_item items (join_url base source) else items)"
  have "fst ` set items \<subseteq> fst ` set items1"
    using keys_add_item_mono [of items "join_url base source"] by (simp add: items1_def)
  also have "\<dots> \<subseteq> fst ` set (segment_url_loop base (findall sl ''SegmentURL'') items1)"
    by (rule keys_segment_url_loop)
  also have "segment_url_loop base (findall sl ''SegmentURL'') items1
               = parse_segment_list rep adp base items"
    by (simp add: parse_segment_list_def Some Let_def source_def items1_def)
  finally show ?thesis .
qed

lemma keys_repeat_loop:
  "repeat_loop media rep base d n cur items = Inr (cur', items') \<Longrightarrow> fst ` set items \<subseteq> fst ` set items'"
proof (induction n arbitrary: cur items)
  case 0
  then show ?case by simp
next
  case (Suc n)
  from Suc.prems obtain seg cur2 where
    "repeat_loop media rep base d n cur2 (add_item items (join_url base seg)) = Inr (cur', items')"
    by (auto simp: Let_def split: sum.splits option.splits)
  from Suc.IH [OF this] keys_add_item_mono [of items "join_url base seg"]
  show ?case by blast
qed

lemma keys_timeline_entry:
  "timeline_entry media rep base s current_time items = Inr (cur', items') \<Longrightarrow>
   fst ` set items \<subseteq> fst ` set items'"
  by (auto simp: timeline_entry_def split: option.splits dest!: keys_repeat_loop)

lemma keys_timeline_loop:
  "timeline_loop media rep base ss current_time items = Inr items' \<Longrightarrow>
   fst ` set items \<subseteq> fst ` set items'"
proof (induction ss arbitrary: current_time items)
  case Nil
  then show ?case by simp
next
  case (Cons s ss)
  from Cons.prems obtain cur items1 where
    a: "timeline_entry media rep base s current_time items = Inr (cur, items1)"
    and b: "timeline_loop media rep base ss (Some cur) items1 = Inr items'"
    by (auto split: sum.splits)
  from keys_timeline_entry [OF a] Cons.IH [OF b] show ?case by blast
qed

lemma keys_number_loop:
  "number_loop media rep base ns items = Inr items' \<Longrightarrow> fst ` set items \<subseteq> fst ` set items'"
proof (induction ns arbitrary: items)
  case Nil
  then show ?case by simp
next
  case (Cons i ns)
  from Cons.prems obtain seg where
    "number_loop media rep base ns (add_item items (join_url base seg)) = Inr items'"
    by (auto split: sum.splits)
  from Cons.IH [OF this] keys_add_item_mono [of items "join_url base seg"]
  show ?case by blast
qed

lemma keys_parse_segment_template:
  assumes "parse_segment_template count_env rep adp base items = Inr items'"
  shows "fst ` set items \<subseteq> fst ` set items'"
proof (cases "elem_or (find_child rep ''SegmentTemplate'') (find_child adp ''SegmentTemplate'')")
  case None
  with assms show ?thesis by (simp add: parse_segment_template_def)
next
  case (Some st)
  define init where "init = str_or (get st ''initialization'') []"
  define items1 where "items1 = (if init \<noteq> []
                         then add_item items (join_url base (initialize_url_pattern init rep))
                         else items)"
  have a: "fst ` set items \<subseteq> fst ` set items1"
    using keys_add_item_mono [of items "join_url base (initialize_url_pattern init rep)"]
    by (simp add: items1_def)
  from assms have "items' = items1
      \<or> (\<exists>media ss. timeline_loop media rep base ss None items1 = Inr items')
      \<or> (\<exists>media ns. number_loop media rep base ns items1 = Inr items')"
    by (auto simp: parse_segment_template_def Some Let_def init_def items1_def
             split: option.splits if_splits)
  then have "fst ` set items1 \<subseteq> fst ` set items'"
    by (auto dest: keys_timeline_loop keys_number_loop)
  with a show ?thesis by blast
qed

text \<open>The two parsers register exactly the URLs the specification names.\<close>

lemma declares_elem_or:
  "declares rep adp n x \<Longrightarrow> elem_or (find_child rep n) (find_child adp n) = x"
  by (auto simp: declares_def elem_or_def split: option.splits)

lemma segment_url_loop_urls:
  "segment_url_loop base sus items
     = foldl add_item items
         [urljoin base (str_or (get su ''media'') []). su \<leftarrow> sus, str_or (get su ''media'') [] \<noteq> []]"
  by (induction sus arbitrary: items) (simp_all add: Let_def join_url_def)

lemma parse_segment_list_urls:
  assumes "declares rep adp ''SegmentList'' lst"
  shows "parse_segment_list rep adp base items = foldl add_item items (spec_list_urls lst base)"
proof -
  have sel: "elem_or (find_child rep ''SegmentList'') (find_child adp ''SegmentList'') = lst"
    using assms by (rule declares_elem_or)
  show ?thesis
  proof (cases lst)
    case None
    with sel show ?thesis by (simp add: parse_segment_list_def spec_list_urls_def)
  next
    case (Some sl)
    with sel show ?thesis
      by (simp add: parse_segment_list_def spec_list_urls_def Let_def segment_url_loop_urls
            join_url_def split: option.splits)
  qed
qed

lemma all_right_map:
  "all_right (map f xs) = Some ys \<Longrightarrow>
   (\<forall>x \<in> set xs. f x = Inr (projr (f x))) \<and> ys = map (\<lambda>x. projr (f x)) xs"
proof (induction xs arbitrary: ys)
  case Nil
  then show ?case by simp
next
  case (Cons x xs)
  then show ?case by (cases "f x") auto
qed

lemma number_loop_urls:
  "all_right (map (\<lambda>i. expand_media_template media rep (Some i) None) ns) = Some segs \<Longrightarrow>
   number_loop media rep base ns items = Inr (foldl add_item items (map (urljoin base) segs))"
proof (induction ns arbitrary: items segs)
  case Nil
  then show ?case by simp
next
  case (Cons i ns)
  then show ?case
    by (cases "expand_media_template media rep (Some i) None") (auto simp: join_url_def)
qed

lemma timeline_loop_urls:
  assumes "entries_of ss = Some es"
      and "all_right (map (\<lambda>t. expand_media_template media rep None (Some t))
                        (spec_timeline_times None es)) = Some segs"
  shows "timeline_loop media rep base ss None items
           = Inr (foldl add_item items (map (urljoin base) segs))"
proof -
  let ?seg = "\<lambda>t. projr (expand_media_template media rep None (Some t))"
  from all_right_map [OF assms(2)]
  have ok: "\<And>t. t \<in> set (spec_timeline_times None es) \<Longrightarrow>
              expand_media_template media rep None (Some t) = Inr (?seg t)"
    and segs: "segs = map ?seg (spec_timeline_times None es)"
    by auto
  from timeline_loop_times [OF assms(1), of None media rep ?seg base items, OF ok]
  show ?thesis by (simp add: segs comp_def join_url_def)
qed

lemma parse_segment_template_urls:
  assumes "declares rep adp ''SegmentTemplate'' tpl"
      and "spec_template_urls count_env tpl rep base = Some turls"
  shows "parse_segment_template count_env rep adp base items = Inr (foldl add_item items turls)"
proof -
  have sel: "elem_or (find_child rep ''SegmentTemplate'') (find_child adp ''SegmentTemplate'') = tpl"
    using assms(1) by (rule declares_elem_or)
  show ?thesis
  proof (cases tpl)
    case None
    with sel assms(2) show ?thesis
      by (simp add: parse_segment_template_def spec_template_urls_def)
  next
    case (Some st)
    define init where "init = str_or (get st ''initialization'') []"
    define media where "media = str_or (get st ''media'') []"
    define init_urls where
      "init_urls = (if init = [] then [] else [urljoin base (initialize_url_pattern init rep)])"
    define items1 where
      "items1 = (if init \<noteq> [] then add_item items (join_url base (initialize_url_pattern init rep))
                 else items)"
    have i1: "items1 = foldl add_item items init_urls"
      by (simp add: items1_def init_urls_def join_url_def)
    show ?thesis
    proof (cases "media = []")
      case True
      with assms(2) Some have "turls = init_urls"
        by (auto simp: spec_template_urls_def Let_def init_def media_def init_urls_def
              split: if_splits)
      with True sel Some show ?thesis
        by (simp add: parse_segment_template_def Let_def init_def media_def init_urls_def
              join_url_def)
    next
      case False
      with assms(2) Some obtain start_number where
        sn: "py_int (str_or (get st ''startNumber'') ''1'') = Some start_number"
        by (auto simp: spec_template_urls_def Let_def media_def split: option.splits)
      show ?thesis
      proof (cases "find_child st ''SegmentTimeline''")
        case (Some timeline)
        with assms(2) \<open>tpl = Some st\<close> False sn obtain es segs where
          es: "entries_of (findall timeline ''S'') = Some es"
          and sg: "all_right (map (\<lambda>t. expand_media_template media rep None (Some t))
                                (spec_timeline_times None es)) = Some segs"
          and tu: "turls = init_urls @ map (urljoin base) segs"
          by (auto simp: spec_template_urls_def Let_def media_def init_def init_urls_def
                split: option.splits)
        have "timeline_loop media rep base (findall timeline ''S'') None items1
                = Inr (foldl add_item items1 (map (urljoin base) segs))"
          using es sg by (rule timeline_loop_urls)
        with sel \<open>tpl = Some st\<close> False sn Some show ?thesis
          by (simp add: parse_segment_template_def Let_def media_def [symmetric] init_def [symmetric]
                items1_def [symmetric] i1 tu)
      next
        case None
        with assms(2) \<open>tpl = Some st\<close> False sn obtain count segs where
          ct: "py_int (str_or count_env []) = Some count"
          and sg: "all_right (map (\<lambda>i. expand_media_template media rep (Some i) None)
                                [start_number .. start_number + count - 1]) = Some segs"
          and tu: "turls = init_urls @ map (urljoin base) segs"
          by (auto simp: spec_template_urls_def Let_def media_def init_def init_urls_def
                split: option.splits)
        have ne: "str_or count_env [] \<noteq> []"
          using ct by (auto simp: py_int_def strip_def)
        have "number_loop media rep base [start_number .. start_number + count - 1] items1
                = Inr (foldl add_item items1 (map (urljoin base) segs))"
          using sg by (rule number_loop_urls)
        with sel \<open>tpl = Some st\<close> False sn None ct ne show ?thesis
          by (simp add: parse_segment_template_def Let_def media_def [symmetric] init_def [symmetric]
                items1_def [symmetric] i1 tu)
      qed
    qed
  qed
qed

lemma keys_foldl_add_item_sup: "set us \<subseteq> fst ` set (foldl add_item items us)"
proof -
  have "set (map fst (foldl add_item items us))
          = set (map fst items) \<union> set (first_occurrences (filter (\<lambda>u. u \<notin> set (map fst items)) us))"
    by (simp only: keys_foldl_add_item set_append)
  then have "fst ` set (foldl add_item items us) = fst ` set items \<union> {u \<in> set us. u \<notin> fst ` set items}"
    by (simp add: set_first_occurrences)
  then show ?thesis by auto
qed

lemma foldl_add_item_not_empty: "us \<noteq> [] \<Longrightarrow> foldl add_item items us \<noteq> []"
  using keys_foldl_add_item_sup [of us items] by (cases us) auto


section \<open>The claims\<close>

subsection \<open>Segment list and segment template\<close>

lemma both_hierarchy:
  "effective_base_urls_hierarchy both_mpd ''http://h.example/d/m.mpd''
     = [(both_rep, both_adp, ''http://h.example/d/m.mpd'')]"
  by code_simp

lemma both_selected: "matches_filters both_rep both_adp no_filters"
  by code_simp

lemma both_list:
  "parse_segment_list both_rep both_adp ''http://h.example/d/m.mpd'' []
     = [(''http://h.example/d/a.m4s'', \<lparr>url = ''http://h.example/d/a.m4s'', relpath = ''d/a.m4s''\<rparr>)]"
  by code_simp

lemma both_template:
  "parse_segment_template None both_rep both_adp ''http://h.example/d/m.mpd''
     [(''http://h.example/d/a.m4s'', \<lparr>url = ''http://h.example/d/a.m4s'', relpath = ''d/a.m4s''\<rparr>)]
     = Inr [(''http://h.example/d/a.m4s'',
               \<lparr>url = ''http://h.example/d/a.m4s'', relpath = ''d/a.m4s''\<rparr>),
            (''http://h.example/d/init-v1.mp4'',
               \<lparr>url = ''http://h.example/d/init-v1.mp4'', relpath = ''d/init-v1.mp4''\<rparr>),
            (''http://h.example/d/t-0.m4s'',
               \<lparr>url = ''http://h.example/d/t-0.m4s'', relpath = ''d/t-0.m4s''\<rparr>),
            (''http://h.example/d/t-2.m4s'',
               \<lparr>url = ''http://h.example/d/t-2.m4s'', relpath = ''d/t-2.m4s''\<rparr>),
            (''http://h.example/d/t-4.m4s'',
               \<lparr>url = ''http://h.example/d/t-4.m4s'', relpath = ''d/t-4.m4s''\<rparr>)]"
  by code_simp

text \<open>
  C1, as the claim states it, fails: for a representation that declares a segment list and a
  segment template, the items of the list and the items of the template are registered.
\<close>

theorem list_and_template_counterexample:
  "find_child both_rep ''SegmentList'' \<noteq> None
   \<and> collect_items both_mpd ''http://h.example/d/m.mpd'' no_filters None
       = Inr [\<lparr>url = ''http://h.example/d/a.m4s'', relpath = ''d/a.m4s''\<rparr>,
              \<lparr>url = ''http://h.example/d/init-v1.mp4'', relpath = ''d/init-v1.mp4''\<rparr>,
              \<lparr>url = ''http://h.example/d/t-0.m4s'', relpath = ''d/t-0.m4s''\<rparr>,
              \<lparr>url = ''http://h.example/d/t-2.m4s'', relpath = ''d/t-2.m4s''\<rparr>,
              \<lparr>url = ''http://h.example/d/t-4.m4s'', relpath = ''d/t-4.m4s''\<rparr>]"
proof
  show "find_child both_rep ''SegmentList'' \<noteq> None"
    by code_simp
  have step: "collect_step no_filters None (both_rep, both_adp, ''http://h.example/d/m.mpd'') []
                = Inr [(''http://h.example/d/a.m4s'',
               \<lparr>url = ''http://h.example/d/a.m4s'', relpath = ''d/a.m4s''\<rparr>),
            (''http://h.example/d/init-v1.mp4'',
               \<lparr>url = ''http://h.example/d/init-v1.mp4'', relpath = ''d/init-v1.mp4''\<rparr>),
            (''http://h.example/d/t-0.m4s'',
               \<lparr>url = ''http://h.example/d/t-0.m4s'', relpath = ''d/t-0.m4s''\<rparr>),
            (''http://h.example/d/t-2.m4s'',
               \<lparr>url = ''http://h.example/d/t-2.m4s'', relpath = ''d/t-2.m4s''\<rparr>),
            (''http://h.example/d/t-4.m4s'',
               \<lparr>url = ''http://h.example/d/t-4.m4s'', relpath = ''d/t-4.m4s''\<rparr>)]"
    by (simp add: collect_step_def both_selected both_list both_template)
  show "collect_items both_mpd ''http://h.example/d/m.mpd'' no_filters None
       = Inr [\<lparr>url = ''http://h.example/d/a.m4s'', relpath = ''d/a.m4s''\<rparr>,
              \<lparr>url = ''http://h.example/d/init-v1.mp4'', relpath = ''d/init-v1.mp4''\<rparr>,
              \<lparr>url = ''http://h.example/d/t-0.m4s'', relpath = ''d/t-0.m4s''\<rparr>,
              \<lparr>url = ''http://h.example/d/t-2.m4s'', relpath = ''d/t-2.m4s''\<rparr>,
              \<lparr>url = ''http://h.example/d/t-4.m4s'', relpath = ''d/t-4.m4s''\<rparr>]"
    by (simp add: collect_items_def both_hierarchy step all_items_def)
qed

text \<open>
  C1, amended. For every selected pair both strategies register their URLs, the segment
  list first and the segment template after it, whether or not a list is declared: when
  the URLs of the declared template exist, the step succeeds, its registry holds every URL
  of the declared list and every URL of the declared template, and when there is such a URL
  the registry is exactly the old one with the list's URLs and then the template's URLs
  registered. (A list or template is declared on the representation when the element has
  child elements, or on the adaptation set when the representation has none.)
\<close>

theorem list_and_template_both_expanded:
  assumes "matches_filters rep adp a"
      and "declares rep adp ''SegmentList'' lst"
      and "declares rep adp ''SegmentTemplate'' tpl"
      and "spec_template_urls count_env tpl rep eff = Some turls"
  shows "\<exists>items'. collect_step a count_env (rep, adp, eff) items = Inr items'
           \<and> set (spec_list_urls lst eff) \<subseteq> fst ` set items'
           \<and> set turls \<subseteq> fst ` set items'
           \<and> (spec_list_urls lst eff @ turls \<noteq> []
                \<longrightarrow> items' = foldl add_item items (spec_list_urls lst eff @ turls))"
proof -
  let ?items2 = "foldl add_item items (spec_list_urls lst eff @ turls)"
  let ?items' = "if ?items2 = [] \<and> splitext_ext (p_path (urlparse eff [])) \<noteq> []
                 then add_item ?items2 eff else ?items2"
  have t: "parse_segment_template count_env rep adp eff (parse_segment_list rep adp eff items)
             = Inr ?items2"
    by (simp add: parse_segment_list_urls [OF assms(2)]
          parse_segment_template_urls [OF assms(3) assms(4)])
  have step: "collect_step a count_env (rep, adp, eff) items = Inr ?items'"
    using assms(1) by (simp add: collect_step_def t)
  have sub: "set (spec_list_urls lst eff @ turls) \<subseteq> fst ` set ?items2"
    by (rule keys_foldl_add_item_sup)
  have mono: "fst ` set ?items2 \<subseteq> fst ` set ?items'"
    using keys_add_item_mono [of ?items2 eff] by simp
  have exact: "spec_list_urls lst eff @ turls \<noteq> [] \<longrightarrow> ?items' = ?items2"
    using foldl_add_item_not_empty [of "spec_list_urls lst eff @ turls" items] by simp
  from step sub mono exact show ?thesis
    by (intro exI [of _ ?items']) auto
qed


theorem list_and_template_both_expanded_witness:
  "collect_step no_filters None (both_rep, both_adp, ''http://h.example/d/m.mpd'') []
     = Inr (foldl add_item []
              [''http://h.example/d/a.m4s'', ''http://h.example/d/init-v1.mp4'',
               ''http://h.example/d/t-0.m4s'', ''http://h.example/d/t-2.m4s'',
               ''http://h.example/d/t-4.m4s''])"
proof -
  have l: "declares both_rep both_adp ''SegmentList'' (find_child both_rep ''SegmentList'')"
    by code_simp
  have t: "declares both_rep both_adp ''SegmentTemplate'' (find_child both_rep ''SegmentTemplate'')"
    by code_simp
  have lu: "spec_list_urls (find_child both_rep ''SegmentList'') ''http://h.example/d/m.mpd''
              = [''http://h.example/d/a.m4s'']"
    by code_simp
  have tu: "spec_template_urls None (find_child both_rep ''SegmentTemplate'') both_rep
              ''http://h.example/d/m.mpd''
              = Some [''http://h.example/d/init-v1.mp4'', ''http://h.example/d/t-0.m4s'',
                      ''http://h.example/d/t-2.m4s'', ''http://h.example/d/t-4.m4s'']"
    by code_simp
  from list_and_template_both_expanded [OF both_selected l t tu, of "[]"]
  show ?thesis
    by (simp only: lu) auto
qed

subsection \<open>The direct-file fallback\<close>

lemma files_hierarchy:
  "effective_base_urls_hierarchy files_mpd ''http://h.example/d/m.mpd''
     = [(video_rep, files_adp, ''http://h.example/d/video.mp4''),
        (audio_rep, files_adp, ''http://h.example/d/audio.mp4'')]"
  by code_simp

lemma files_video_step:
  "collect_step no_filters None (video_rep, files_adp, ''http://h.example/d/video.mp4'') []
     = Inr [(''http://h.example/d/video.mp4'',
             \<lparr>url = ''http://h.example/d/video.mp4'', relpath = ''d/video.mp4''\<rparr>)]"
  by code_simp

lemma files_audio_step:
  "collect_step no_filters None (audio_rep, files_adp, ''http://h.example/d/audio.mp4'')
       [(''http://h.example/d/video.mp4'',
         \<lparr>url = ''http://h.example/d/video.mp4'', relpath = ''d/video.mp4''\<rparr>)]
     = Inr [(''http://h.example/d/video.mp4'',
             \<lparr>url = ''http://h.example/d/video.mp4'', relpath = ''d/video.mp4''\<rparr>)]"
  by code_simp

lemma files_audio_alone:
  "collect_step no_filters None (audio_rep, files_adp, ''http://h.example/d/audio.mp4'') []
     = Inr [(''http://h.example/d/audio.mp4'',
             \<lparr>url = ''http://h.example/d/audio.mp4'', relpath = ''d/audio.mp4''\<rparr>)]"
  by code_simp

text \<open>
  C2. The code departs from the claim: the fallback tests whether the whole registry is
  empty. The second representation below declares neither a segment list nor a segment
  template, is selected, and its effective base ends in \<^verbatim>\<open>.mp4\<close>; processed on an empty
  registry it is registered, but in the manifest it comes after a representation that has
  registered an item, and only the first file is collected.
\<close>

theorem direct_file_only_into_empty_registry:
  "find_child audio_rep ''SegmentList'' = None \<and> find_child files_adp ''SegmentList'' = None
   \<and> find_child audio_rep ''SegmentTemplate'' = None \<and> find_child files_adp ''SegmentTemplate'' = None
   \<and> matches_filters audio_rep files_adp no_filters
   \<and> splitext_ext (p_path (urlparse ''http://h.example/d/audio.mp4'' [])) = ''.mp4''
   \<and> collect_step no_filters None (audio_rep, files_adp, ''http://h.example/d/audio.mp4'') []
       = Inr [(''http://h.example/d/audio.mp4'',
               \<lparr>url = ''http://h.example/d/audio.mp4'', relpath = ''d/audio.mp4''\<rparr>)]
   \<and> collect_items files_mpd ''http://h.example/d/m.mpd'' no_filters None
       = Inr [\<lparr>url = ''http://h.example/d/video.mp4'', relpath = ''d/video.mp4''\<rparr>]"
proof -
  have a: "find_child audio_rep ''SegmentList'' = None \<and> find_child files_adp ''SegmentList'' = None
   \<and> find_child audio_rep ''SegmentTemplate'' = None \<and> find_child files_adp ''SegmentTemplate'' = None
   \<and> matches_filters audio_rep files_adp no_filters"
    by code_simp
  have b: "splitext_ext (p_path (urlparse ''http://h.example/d/audio.mp4'' [])) = ''.mp4''"
    by code_simp
  have c: "collect_items files_mpd ''http://h.example/d/m.mpd'' no_filters None
       = Inr [\<lparr>url = ''http://h.example/d/video.mp4'', relpath = ''d/video.mp4''\<rparr>]"
    by (simp add: collect_items_def files_hierarchy files_video_step files_audio_step all_items_def)
  from a b c files_audio_alone show ?thesis by simp
qed


subsection \<open>The relative path of an item\<close>

text \<open>
  C3, as the claim states it, fails: different URLs can have the same relative path. URLs
  that differ only in the host collide; on one host, a URL with a query collides with the
  URL whose path ends in the encoded query, a path with a slash at its end collides with
  the same path without it when a query follows, and so do paths that differ in their
  leading slashes.
\<close>

theorem relpath_collision_counterexample:
  "''http://a.example/v/seg.m4s'' \<noteq> ''http://b.example/v/seg.m4s''
   \<and> ensure_relpath_from_url ''http://a.example/v/seg.m4s''
       = ensure_relpath_from_url ''http://b.example/v/seg.m4s''
   \<and> ''http://h.example/v/seg.m4s?a=1'' \<noteq> ''http://h.example/v/seg.m4s/a%3D1''
   \<and> ensure_relpath_from_url ''http://h.example/v/seg.m4s?a=1''
       = ensure_relpath_from_url ''http://h.example/v/seg.m4s/a%3D1''
   \<and> ''http://h.example/v?a=1'' \<noteq> ''http://h.example/v/?a=1''
   \<and> ensure_relpath_from_url ''http://h.example/v?a=1''
       = ensure_relpath_from_url ''http://h.example/v/?a=1''
   \<and> ''http://h.example/v/seg.m4s'' \<noteq> ''http://h.example//v/seg.m4s''
   \<and> ensure_relpath_from_url ''http://h.example/v/seg.m4s''
       = ensure_relpath_from_url ''http://h.example//v/seg.m4s''"
proof -
  have a: "ensure_relpath_from_url ''http://a.example/v/seg.m4s''
       = ensure_relpath_from_url ''http://b.example/v/seg.m4s''"
    by code_simp
  have b: "ensure_relpath_from_url ''http://h.example/v/seg.m4s?a=1''
       = ensure_relpath_from_url ''http://h.example/v/seg.m4s/a%3D1''"
    by code_simp
  have c: "ensure_relpath_from_url ''http://h.example/v?a=1''
       = ensure_relpath_from_url ''http://h.example/v/?a=1''"
    by code_simp
  have d: "ensure_relpath_from_url ''http://h.example/v/seg.m4s''
       = ensure_relpath_from_url ''http://h.example//v/seg.m4s''"
    by code_simp
  from a b c d show ?thesis by simp
qed

text \<open>
  C3, amended. The relative path is a function of the URL's path and query alone: the path
  without its leading slashes and, when the query is not empty, \<^verbatim>\<open>quote_plus\<close> of the
  query as one more path segment. Two URLs have the same relative path exactly in these
  cases: neither has a query and their paths are equal up to leading slashes; both have a
  query, the queries are equal and the paths are equal up to leading slashes and a slash at
  the end; one has a query, the other has none, and the path of the other is the path of
  the first followed by the encoded query. In every other case the relative paths differ.
\<close>

theorem relpath_collisions:
  "ensure_relpath_from_url u
     = (if url_query u = [] then url_rel u else as_directory (url_rel u) @ quote_plus (url_query u))
   \<and> (ensure_relpath_from_url u = ensure_relpath_from_url v
        \<longleftrightarrow> (if url_query u = [] \<and> url_query v = [] then url_rel u = url_rel v
             else if url_query u \<noteq> [] \<and> url_query v \<noteq> []
             then as_directory (url_rel u) = as_directory (url_rel v) \<and> url_query u = url_query v
             else if url_query u = []
             then url_rel u = as_directory (url_rel v) @ quote_plus (url_query v)
             else url_rel v = as_directory (url_rel u) @ quote_plus (url_query u)))"
proof -
  have both: "as_directory a @ quote_plus p = as_directory b @ quote_plus q
                \<longleftrightarrow> as_directory a = as_directory b \<and> p = q" for a b p q
  proof
    assume "as_directory a @ quote_plus p = as_directory b @ quote_plus q"
    from directory_and_segment [OF as_directory_shape as_directory_shape
           quote_plus_no_slash quote_plus_no_slash this]
    show "as_directory a = as_directory b \<and> p = q"
      by (auto dest: quote_plus_inj)
  next
    assume "as_directory a = as_directory b \<and> p = q"
    then show "as_directory a @ quote_plus p = as_directory b @ quote_plus q" by simp
  qed
  show ?thesis
    by (auto simp: relpath_shape both)
qed


theorem relpath_collisions_witness:
  "ensure_relpath_from_url ''http://h.example/v/seg.m4s?a=1'' = ''v/seg.m4s/a%3D1''
   \<and> ensure_relpath_from_url ''http://h.example/v/seg.m4s?a=1''
       \<noteq> ensure_relpath_from_url ''http://h.example/v/seg.m4s?a=2''"
proof -
  have q1: "url_query ''http://h.example/v/seg.m4s?a=1'' = ''a=1''"
    by code_simp
  have q2: "url_query ''http://h.example/v/seg.m4s?a=2'' = ''a=2''"
    by code_simp
  have r1: "as_directory (url_rel ''http://h.example/v/seg.m4s?a=1'') @ quote_plus ''a=1''
              = ''v/seg.m4s/a%3D1''"
    by code_simp
  note inst = relpath_collisions
    [of "''http://h.example/v/seg.m4s?a=1''" "''http://h.example/v/seg.m4s?a=2''"]
  have e: "ensure_relpath_from_url ''http://h.example/v/seg.m4s?a=1''
             = (if url_query ''http://h.example/v/seg.m4s?a=1'' = []
                then url_rel ''http://h.example/v/seg.m4s?a=1''
                else as_directory (url_rel ''http://h.example/v/seg.m4s?a=1'')
                     @ quote_plus (url_query ''http://h.example/v/seg.m4s?a=1''))"
    using inst by (rule conjunct1)
  have first: "ensure_relpath_from_url ''http://h.example/v/seg.m4s?a=1'' = ''v/seg.m4s/a%3D1''"
    unfolding e by (simp add: q1 r1)
  have "(ensure_relpath_from_url ''http://h.example/v/seg.m4s?a=1''
          = ensure_relpath_from_url ''http://h.example/v/seg.m4s?a=2'')
        \<longleftrightarrow> (as_directory (url_rel ''http://h.example/v/seg.m4s?a=1'')
               = as_directory (url_rel ''http://h.example/v/seg.m4s?a=2'')
             \<and> ''a=1'' = ''a=2'')"
    using conjunct2 [OF inst] by (simp add: q1 q2)
  then have second: "ensure_relpath_from_url ''http://h.example/v/seg.m4s?a=1''
       \<noteq> ensure_relpath_from_url ''http://h.example/v/seg.m4s?a=2''"
    by simp
  from first second show ?thesis by (rule conjI)
qed


subsection \<open>The timeline cursor\<close>




subsection \<open>Effective base URLs\<close>

text \<open>
  C5. The triples produced by the hierarchy walk are, for every representation reached
  through a period and an adaptation set, the sequential joins of the overrides of the four
  levels (root, period, adaptation set, representation) onto the manifest's base, a level
  without meaningful override passing its parent's base through; and the number of
  effective bases of a representation is the product of the four levels' counts of
  meaningful overrides, a level with none counting 1.
\<close>

theorem effective_bases_sequential_joins:
  "effective_base_urls_hierarchy root base
     = [(rep, adp, eff).
          period \<leftarrow> findall root ''Period'',
          adp \<leftarrow> findall period ''AdaptationSet'',
          rep \<leftarrow> findall adp ''Representation'',
          eff \<leftarrow> spec_effective_bases base [root, period, adp, rep]]
   \<and> length (spec_effective_bases base [root, period, adp, rep])
       = level_count root * level_count period * level_count adp * level_count rep"
  unfolding effective_base_urls_hierarchy_def Let_def bases_of_chain
  by (simp add: length_spec_effective_bases del: spec_effective_bases.simps)

theorem effective_bases_sequential_joins_witness:
  "map (\<lambda>t. snd (snd t)) (effective_base_urls_hierarchy mirrors_mpd ''http://h.example/d/m.mpd'')
     = [''http://cdn1.example/video/hi/'', ''http://cdn1.example/video/lo/'',
        ''http://cdn2.example/v/video/hi/'', ''http://cdn2.example/v/video/lo/'']
   \<and> length (spec_effective_bases ''http://h.example/d/m.mpd''
               [mirrors_mpd, mirrors_period, mirrors_adp, mirrors_rep]) = 4"
proof -
  note inst = effective_bases_sequential_joins
    [of mirrors_mpd "''http://h.example/d/m.mpd''" mirrors_period mirrors_adp mirrors_rep]
  have "map (\<lambda>t. snd (snd t)) (effective_base_urls_hierarchy mirrors_mpd ''http://h.example/d/m.mpd'')
          = map (\<lambda>t. snd (snd t))
              [(rep, adp, eff).
                 period \<leftarrow> findall mirrors_mpd ''Period'',
                 adp \<leftarrow> findall period ''AdaptationSet'',
                 rep \<leftarrow> findall adp ''Representation'',
                 eff \<leftarrow> spec_effective_bases ''http://h.example/d/m.mpd'' [mirrors_mpd, period, adp, rep]]"
    using inst by (simp only:)
  also have "\<dots> = [''http://cdn1.example/video/hi/'', ''http://cdn1.example/video/lo/'',
        ''http://cdn2.example/v/video/hi/'', ''http://cdn2.example/v/video/lo/'']"
    by code_simp
  finally have a: "map (\<lambda>t. snd (snd t)) (effective_base_urls_hierarchy mirrors_mpd ''http://h.example/d/m.mpd'')
     = [''http://cdn1.example/video/hi/'', ''http://cdn1.example/video/lo/'',
        ''http://cdn2.example/v/video/hi/'', ''http://cdn2.example/v/video/lo/'']" .
  have "level_count mirrors_mpd * level_count mirrors_period * level_count mirrors_adp
          * level_count mirrors_rep = 4"
    by code_simp
  with inst have b: "length (spec_effective_bases ''http://h.example/d/m.mpd''
               [mirrors_mpd, mirrors_period, mirrors_adp, mirrors_rep]) = 4"
    by (simp only:)
  from a b show ?thesis by (rule conjI)
qed

subsection \<open>Retries and backoff\<close>

text \<open>
  C6. For an item that passes the domain gate and a retry count that is not negative:
  when the endpoint fails \<open>N\<close> times and then succeeds, \<^verbatim>\<open>download_one\<close> reports success
  after exactly \<open>N + 1\<close> requests if \<open>N \<le> retries\<close>, and reports failure with the
  description of the last error after exactly \<open>retries + 1\<close> requests if \<open>retries < N\<close>;
  the delays slept between the requests are \<open>min (2 ^ i) 10\<close> after the \<open>i\<close>-th failure.
  Whatever the endpoint does, at most \<open>retries + 1\<close> requests are made.
\<close>

theorem retry_until_success_or_exhausted:
  assumes gate: "check_domain (url item) only_domain"
      and count: "0 \<le> retries"
      and fails: "\<forall>j < N. net j = Raised (e j)"
      and succeeds: "net N = Fetched"
  shows "(int N \<le> retries \<longrightarrow>
            download_one net item retries only_domain
              = \<lparr>outcome_of = Some (url item, True, None), requests = N + 1,
                 sleeps = map backoff [1 ..< N + 1]\<rparr>)
       \<and> (retries < int N \<longrightarrow>
            download_one net item retries only_domain
              = \<lparr>outcome_of = Some (url item, False, Some (e (nat retries))),
                 requests = nat retries + 1,
                 sleeps = map backoff [1 ..< nat retries + 1]\<rparr>)
       \<and> requests (download_one other_net item retries only_domain) \<le> nat (retries + 1)"
proof (intro conjI impI)
  assume le: "int N \<le> retries"
  have "attempt_loop net (url item) retries 0 0 []
          = \<lparr>outcome_of = Some (url item, True, None), requests = Suc (0 + N),
             sleeps = [] @ map (\<lambda>i. min (2 ^ nat (0 + int i)) 10) [1 ..< Suc N]\<rparr>"
    by (rule attempt_loop_success [where e = e]) (use fails succeeds le in simp_all)
  then show "download_one net item retries only_domain
              = \<lparr>outcome_of = Some (url item, True, None), requests = N + 1,
                 sleeps = map backoff [1 ..< N + 1]\<rparr>"
    using gate by (simp add: download_one_def backoff_def del: upt_Suc)
next
  assume lt: "retries < int N"
  have "attempt_loop net (url item) retries 0 0 []
          = \<lparr>outcome_of = Some (url item, False, Some (e (0 + nat retries))),
             requests = Suc (0 + nat retries),
             sleeps = [] @ map (\<lambda>i. min (2 ^ nat (0 + int i)) 10) [1 ..< Suc (nat retries)]\<rparr>"
    by (rule attempt_loop_exhausted) (use fails count lt in auto)
  then show "download_one net item retries only_domain
              = \<lparr>outcome_of = Some (url item, False, Some (e (nat retries))),
                 requests = nat retries + 1,
                 sleeps = map backoff [1 ..< nat retries + 1]\<rparr>"
    using gate by (simp add: download_one_def backoff_def del: upt_Suc)
next
  show "requests (download_one other_net item retries only_domain) \<le> nat (retries + 1)"
    using attempt_loop_requests [of other_net "url item" retries 0 0 "[]"]
    by (simp add: download_one_def)
qed


theorem retry_until_success_or_exhausted_witness:
  "download_one flaky_twice segment_item 3 None
     = \<lparr>outcome_of = Some (''http://b.example/v/seg.m4s'', True, None), requests = 3, sleeps = [2, 4]\<rparr>
   \<and> download_one flaky_twice segment_item 1 None
     = \<lparr>outcome_of = Some (''http://b.example/v/seg.m4s'', False, Some ''boom''), requests = 2,
        sleeps = [2]\<rparr>"
proof -
  have gate: "check_domain (url segment_item) None"
    by (simp add: check_domain_def str_or_def)
  have fails: "\<forall>j < 2. flaky_twice j = Raised ((\<lambda>j. ''boom'') j)"
    by (simp add: flaky_twice_def)
  have succeeds: "flaky_twice 2 = Fetched"
    by (simp add: flaky_twice_def)
  have b2: "map backoff [1 ..< 2 + 1] = [2, 4]"
    by code_simp
  have b1: "map backoff [1 ..< nat 1 + 1] = [2]"
    by code_simp
  have u: "url segment_item = ''http://b.example/v/seg.m4s''"
    by (simp add: segment_item_def)
  from retry_until_success_or_exhausted [OF gate _ fails succeeds, of 3]
  have "download_one flaky_twice segment_item 3 None
     = \<lparr>outcome_of = Some (url segment_item, True, None), requests = 2 + 1,
        sleeps = map backoff [1 ..< 2 + 1]\<rparr>"
    by simp
  then have a: "download_one flaky_twice segment_item 3 None
     = \<lparr>outcome_of = Some (''http://b.example/v/seg.m4s'', True, None), requests = 3, sleeps = [2, 4]\<rparr>"
    by (simp only: b2 u) simp
  from retry_until_success_or_exhausted [OF gate _ fails succeeds, of 1]
  have "download_one flaky_twice segment_item 1 None
     = \<lparr>outcome_of = Some (url segment_item, False, Some ''boom''), requests = nat 1 + 1,
        sleeps = map backoff [1 ..< nat 1 + 1]\<rparr>"
    by simp
  then have b: "download_one flaky_twice segment_item 1 None
     = \<lparr>outcome_of = Some (''http://b.example/v/seg.m4s'', False, Some ''boom''), requests = 2,
        sleeps = [2]\<rparr>"
    by (simp only: b1 u) simp
  from a b show ?thesis by (rule conjI)
qed


subsection \<open>Deduplication and listing order\<close>

text \<open>
  C7. Registering a URL is idempotent; the registry built by any sequence of registrations
  never holds two entries with the same URL; a URL registered any number of times (at
  least once) has exactly one entry; and \<open>all_items\<close> lists the entries in the order
  in which their URLs were registered for the first time.
\<close>

theorem registry_dedup:
  "add_item (add_item items u) u = add_item items u
   \<and> distinct (map url (all_items (register_all us)))
   \<and> length (filter (\<lambda>it. url it = u) (all_items (register_all us))) = (if u \<in> set us then 1 else 0)
   \<and> map url (all_items (register_all us)) = first_occurrences us"
proof -
  have "length (filter (\<lambda>it. url it = u) (all_items (register_all us)))
          = length (filter (\<lambda>y. y = u) (map url (all_items (register_all us))))"
    by (simp add: filter_map comp_def)
  also have "\<dots> = (if u \<in> set us then 1 else 0)"
    by (simp only: urls_register_all count_distinct [OF distinct_first_occurrences] set_first_occurrences)
  finally show ?thesis
    by (simp add: add_item_idem urls_register_all distinct_first_occurrences)
qed

theorem registry_dedup_witness:
  "map url (all_items (register_all [''http://h/a'', ''http://h/b'', ''http://h/a'', ''http://h/c'', ''http://h/b'']))
     = [''http://h/a'', ''http://h/b'', ''http://h/c'']
   \<and> length (filter (\<lambda>it. url it = ''http://h/a'')
        (all_items (register_all [''http://h/a'', ''http://h/b'', ''http://h/a'', ''http://h/c'', ''http://h/b'']))) = 1"
  using registry_dedup [of "[]" "''http://h/a''" "[''http://h/a'', ''http://h/b'', ''http://h/a'', ''http://h/c'', ''http://h/b'']"]
  by simp

subsection \<open>Fatal errors of template expansion\<close>

text \<open>
  What holds of the claim: \<^verbatim>\<open>expand_media_template\<close> raises when the pattern uses
  \<^verbatim>\<open>$Number\<close> or \<^verbatim>\<open>$Time$\<close> and the value is missing, and a template that
  \<^verbatim>\<open>parse_segment_template\<close> has found, with a media pattern and no timeline, raises when
  the segment count is absent.
\<close>

lemma expand_number_needs_value:
  "contains ''$Number'' pat \<Longrightarrow>
   expand_media_template pat rep None t
     = Inl (RuntimeError ''Template uses $Number$ but number=None'')"
  by (simp add: expand_media_template_def)

lemma expand_time_needs_value:
  "\<not> contains ''$Number'' pat \<Longrightarrow> contains ''$Time$'' pat \<Longrightarrow>
   expand_media_template pat rep n None
     = Inl (RuntimeError ''Template uses $Time$ but time=None'')"
  by (simp add: expand_media_template_def)

lemma count_absent_is_fatal:
  assumes "elem_or (find_child rep ''SegmentTemplate'') (find_child adp ''SegmentTemplate'') = Some st"
      and "str_or (get st ''media'') [] \<noteq> []"
      and "py_int (str_or (get st ''startNumber'') ''1'') = Some start_number"
      and "find_child st ''SegmentTimeline'' = None"
      and "str_or count_env [] = []"
  shows "parse_segment_template count_env rep adp base items
           = Inl (RuntimeError ''Need DASH_SEGMENT_COUNT for number-based SegmentTemplate'')"
  using assms by (simp add: parse_segment_template_def Let_def)

text \<open>
  C8. The code departs from the claim: \<^verbatim>\<open>rep.find(...) or adp.find(...)\<close> takes an element
  without children for false. A number-based template without timeline declared on the
  representation has no children; it is dropped, nothing is registered and no error is
  raised, whether or not the segment count is supplied. The same template declared on the
  adaptation set raises the error.
\<close>

theorem childless_template_skipped:
  "find_child number_rep ''SegmentTemplate''
     = Some (el ''SegmentTemplate'' [(''media'', ''seg-$Number$.m4s''), (''startNumber'', ''1'')] [])
   \<and> parse_segment_template None number_rep number_adp ''http://h.example/d/'' [] = Inr []
   \<and> parse_segment_template (Some ''3'') number_rep number_adp ''http://h.example/d/'' [] = Inr []
   \<and> parse_segment_template None plain_rep template_adp ''http://h.example/d/'' []
       = Inl (RuntimeError ''Need DASH_SEGMENT_COUNT for number-based SegmentTemplate'')"
  by code_simp


subsection \<open>The domain gate\<close>

text \<open>
  C9. When a domain is configured (\<^verbatim>\<open>only_domain\<close> is a non-empty string) and the host name
  of the item's URL is not equal to it, \<^verbatim>\<open>download_one\<close> returns the failure
  \<^verbatim>\<open>wrong domain\<close> without any request and without sleeping; when no domain is
  configured \<^verbatim>\<open>check_domain\<close> accepts every URL.
\<close>

theorem domain_gate:
  assumes "only_domain = Some d"
      and "d \<noteq> []"
      and "hostname (urlparse (url item) []) \<noteq> Some d"
  shows "download_one net item retries only_domain
           = \<lparr>outcome_of = Some (url item, False, Some ''wrong domain''), requests = 0, sleeps = []\<rparr>
         \<and> check_domain u None"
  using assms by (simp add: download_one_def check_domain_def str_or_def)

theorem domain_gate_witness:
  "download_one flaky_twice segment_item 3 (Some ''a.example'')
     = \<lparr>outcome_of = Some (''http://b.example/v/seg.m4s'', False, Some ''wrong domain''),
        requests = 0, sleeps = []\<rparr>
   \<and> check_domain ''http://b.example/v/seg.m4s'' None"
proof -
  have h: "hostname (urlparse (url segment_item) []) \<noteq> Some ''a.example''"
    by code_simp
  have u: "url segment_item = ''http://b.example/v/seg.m4s''"
    by (simp add: segment_item_def)
  from domain_gate [OF refl _ h, of flaky_twice 3 "''http://b.example/v/seg.m4s''"]
  show ?thesis by (simp add: u)
qed

subsection \<open>Entries without duration\<close>

text \<open>
  C10. For a timeline entry without duration, whose repeat count is the integer \<open>r\<close> and
  whose cursor is \<open>cur\<close>, every one of the \<open>r + 1\<close> rounds registers the same URL (the
  pattern expanded at \<open>cur\<close>); the cursor is \<open>cur\<close> afterwards; the registry is what
  one registration of that URL gives (nothing is registered when \<open>r + 1 \<le> 0\<close>), so it
  grows by at most one item.
\<close>

theorem no_duration_entry_registers_once:
  assumes "get s ''d'' = None"
      and "py_int (str_or (get s ''r'') ''0'') = Some r"
      and "(case get s ''t'' of
              Some t \<Rightarrow> py_int t
            | None \<Rightarrow> Some (case current_time of None \<Rightarrow> 0 | Some c \<Rightarrow> c)) = Some cur"
      and "expand_media_template media rep None (Some cur) = Inr seg"
  shows "timeline_entry media rep base s current_time items
           = Inr (cur, foldl add_item items (replicate (nat (r + 1)) (join_url base seg)))
         \<and> foldl add_item items (replicate (nat (r + 1)) (join_url base seg))
             = (if 0 \<le> r then add_item items (join_url base seg) else items)
         \<and> length (foldl add_item items (replicate (nat (r + 1)) (join_url base seg)))
             \<le> length items + 1"
proof -
  have "repeat_loop media rep base None (nat (r + 1)) cur items
          = Inr (cur + int (nat (r + 1)) * 0,
                 foldl add_item items
                   (map (\<lambda>k. join_url base ((\<lambda>t. seg) (cur + int k * 0))) [0 ..< nat (r + 1)]))"
    by (rule repeat_loop_times) (simp_all add: assms(4))
  then have a: "timeline_entry media rep base s current_time items
           = Inr (cur, foldl add_item items (replicate (nat (r + 1)) (join_url base seg)))"
    by (simp add: timeline_entry_def assms(1,2,3) map_replicate_const)
  have b: "foldl add_item items (replicate (nat (r + 1)) (join_url base seg))
             = (if 0 \<le> r then add_item items (join_url base seg) else items)"
    by (simp add: foldl_add_item_replicate)
  have c: "length (foldl add_item items (replicate (nat (r + 1)) (join_url base seg)))
             \<le> length items + 1"
    using length_add_item_le [of items "join_url base seg"] by (simp add: b)
  from a b c show ?thesis by simp
qed

theorem no_duration_entry_registers_once_witness:
  "timeline_entry ''seg-$Time$.m4s'' timeline_rep ''http://h.example/d/'' timeline_s3 (Some 9) []
     = Inr (5, add_item [] ''http://h.example/d/seg-5.m4s'')"
proof -
  have h1: "get timeline_s3 ''d'' = None" by code_simp
  have h2: "py_int (str_or (get timeline_s3 ''r'') ''0'') = Some 2" by code_simp
  have h3: "(case get timeline_s3 ''t'' of
              Some t \<Rightarrow> py_int t
            | None \<Rightarrow> Some (case Some 9 of None \<Rightarrow> 0 | Some c \<Rightarrow> c)) = Some 5" by code_simp
  have h4: "expand_media_template ''seg-$Time$.m4s'' timeline_rep None (Some 5) = Inr ''seg-5.m4s''"
    by code_simp
  have j: "join_url ''http://h.example/d/'' ''seg-5.m4s'' = ''http://h.example/d/seg-5.m4s''"
    by code_simp
  from no_duration_entry_registers_once [OF h1 h2 h3 h4, of "''http://h.example/d/''" "[]"]
  show ?thesis by (simp add: j)
qed

end
